theory Spec2Isabelle
  imports Complex_Main
begin

unbundle bit_operations_syntax

section \<open>Data model\<close>

text \<open>
  A shallow embedding of the candidate-generation core of the Bayesian-optimisation
  strategy: \<^verbatim>\<open>bofire/strategies/predictives/botorch.py\<close> (fixed-feature resolver,
  categorical and n-choose-k enumerators, composer, dispatch of \<^verbatim>\<open>_ask\<close>),
  \<^verbatim>\<open>bofire/strategies/predictives/predictive.py\<close> (\<^verbatim>\<open>tell\<close>, \<^verbatim>\<open>fit\<close>),
  \<^verbatim>\<open>bofire/strategies/strategy.py\<close> (\<^verbatim>\<open>ask\<close>) and the validators of
  \<^verbatim>\<open>bofire/data_models/strategies/predictives/botorch.py\<close>.

  Python exceptions are values of \<open>error\<close>; a function that can raise returns
  \<open>error + 'a\<close> with \<open>Inl\<close> for the exception.
\<close>

type_synonym key = string

datatype error =
    ValueError string
  | KeyError string
  | IndexError
  | TypeError
  | AssertionError
  | IOError
  | DomainValidationError
  | SurrogateFitError
  | OptimizerError

datatype CategoricalMethodEnum = EXHAUSTIVE | FREE

datatype CategoricalEncodingEnum = ONE_HOT | ORDINAL | DUMMY | DESCRIPTOR

text \<open>A Python value stored in a data frame cell or in a fixed-feature dictionary.\<close>

datatype cell = Num real | Str string

text \<open>
  The input features. The class hierarchy of the source is
  \<^verbatim>\<open>Input > {ContinuousInput, DiscreteInput, CategoricalInput}\<close> and
  \<^verbatim>\<open>CategoricalInput > {CategoricalDescriptorInput, TaskInput}\<close>.
  A categorical feature carries its category labels and the parallel mask of allowed
  categories; a descriptor feature also carries one row of descriptor values per category.
\<close>

datatype feature =
    ContinuousInput key real real
  | DiscreteInput key "real list"
  | CategoricalInput key "string list" "bool list"
  | CategoricalDescriptorInput key "string list" "bool list" "real list list"
  | TaskInput key "string list" "bool list"

datatype feature_class =
    Input_cls
  | ContinuousInput_cls
  | DiscreteInput_cls
  | CategoricalInput_cls
  | CategoricalDescriptorInput_cls
  | TaskInput_cls

fun key_of :: "feature \<Rightarrow> key" where
  "key_of (ContinuousInput k lo up) = k"
| "key_of (DiscreteInput k vs) = k"
| "key_of (CategoricalInput k cs al) = k"
| "key_of (CategoricalDescriptorInput k cs al ds) = k"
| "key_of (TaskInput k cs al) = k"

fun categories :: "feature \<Rightarrow> string list" where
  "categories (CategoricalInput k cs al) = cs"
| "categories (CategoricalDescriptorInput k cs al ds) = cs"
| "categories (TaskInput k cs al) = cs"
| "categories (ContinuousInput k lo up) = []"
| "categories (DiscreteInput k vs) = []"

fun allowed :: "feature \<Rightarrow> bool list" where
  "allowed (CategoricalInput k cs al) = al"
| "allowed (CategoricalDescriptorInput k cs al ds) = al"
| "allowed (TaskInput k cs al) = al"
| "allowed (ContinuousInput k lo up) = []"
| "allowed (DiscreteInput k vs) = []"

text \<open>Python's \<^verbatim>\<open>isinstance(feature, cls)\<close> over the hierarchy above.\<close>

fun isinstance :: "feature \<Rightarrow> feature_class \<Rightarrow> bool" where
  "isinstance (ContinuousInput k lo up) c = (c = Input_cls \<or> c = ContinuousInput_cls)"
| "isinstance (DiscreteInput k vs) c = (c = Input_cls \<or> c = DiscreteInput_cls)"
| "isinstance (CategoricalInput k cs al) c = (c = Input_cls \<or> c = CategoricalInput_cls)"
| "isinstance (CategoricalDescriptorInput k cs al ds) c =
     (c = Input_cls \<or> c = CategoricalInput_cls \<or> c = CategoricalDescriptorInput_cls)"
| "isinstance (TaskInput k cs al) c =
     (c = Input_cls \<or> c = CategoricalInput_cls \<or> c = TaskInput_cls)"

text \<open>
  An n-choose-k constraint, the domain, and a data frame (its column names and its rows;
  a row maps a column name to the cell, \<open>None\<close> for a missing value).
\<close>

record NChooseKConstraint =
  features :: "key list"
  min_count :: nat
  max_count :: nat
  none_also_valid :: bool

record Domain =
  inputs :: "feature list"
  nchoosek :: "NChooseKConstraint list"

record dataframe =
  columns :: "key list"
  rows :: "(key \<rightharpoonup> cell) list"

text \<open>A fixed-feature dictionary: numeric column index to pinned value.\<close>

type_synonym fixed_features = "nat \<rightharpoonup> cell"

text \<open>
  The strategy object. \<open>input_preprocessing_specs\<close> is the encoding dictionary of the
  surrogate specs (an association list with unique keys); \<open>features2idx\<close> is the column
  layout the property \<^verbatim>\<open>_features2idx\<close> obtains from the domain's
  \<^verbatim>\<open>_get_transform_info\<close>, which is not part of the sources at hand and is therefore
  a parameter here. \<open>acqf\<close> says whether \<^verbatim>\<open>self.acqf\<close> is set; \<open>fit_calls\<close> and
  \<open>init_acqf_calls\<close> count the calls of the surrogate fit and of \<^verbatim>\<open>_init_acqf\<close>.
\<close>

record BotorchStrategy =
  domain :: Domain
  input_preprocessing_specs :: "(key \<times> CategoricalEncodingEnum) list"
  features2idx :: "key \<rightharpoonup> nat list"
  descriptor_method :: CategoricalMethodEnum
  categorical_method :: CategoricalMethodEnum
  discrete_method :: CategoricalMethodEnum
  experiments :: "dataframe option"
  candidates :: "dataframe option"
  is_fitted :: bool
  acqf :: bool
  fit_calls :: nat
  init_acqf_calls :: nat

section \<open>Iteration that may raise\<close>

text \<open>A \<^verbatim>\<open>for\<close> loop threading a state; the first exception ends it.\<close>

fun foldM :: "('s \<Rightarrow> 'a \<Rightarrow> error + 's) \<Rightarrow> 's \<Rightarrow> 'a list \<Rightarrow> error + 's" where
  "foldM f s [] = Inr s"
| "foldM f s (x # xs) = (case f s x of Inl e \<Rightarrow> Inl e | Inr s' \<Rightarrow> foldM f s' xs)"

text \<open>A list comprehension whose element expression may raise.\<close>

fun mapM :: "('a \<Rightarrow> error + 'b) \<Rightarrow> 'a list \<Rightarrow> error + 'b list" where
  "mapM f [] = Inr []"
| "mapM f (x # xs) =
     (case f x of Inl e \<Rightarrow> Inl e
      | Inr y \<Rightarrow> (case mapM f xs of Inl e \<Rightarrow> Inl e | Inr ys \<Rightarrow> Inr (y # ys)))"

text \<open>Python's \<^verbatim>\<open>list.index\<close>, \<open>None\<close> where it raises.\<close>

fun index_of :: "'a list \<Rightarrow> 'a \<Rightarrow> nat option" where
  "index_of [] v = None"
| "index_of (x # xs) v = (if x = v then Some 0 else map_option Suc (index_of xs v))"

section \<open>Feature helpers of the data model\<close>

text \<open>
  Modelled from the spec: the feature methods \<^verbatim>\<open>get_allowed_categories\<close>,
  \<^verbatim>\<open>get_forbidden_categories\<close>, \<^verbatim>\<open>is_fixed\<close>, \<^verbatim>\<open>to_onehot_encoding\<close>,
  \<^verbatim>\<open>fixed_value\<close> and \<^verbatim>\<open>get_bounds\<close> of the categorical, descriptor and
  discrete features are missing from the sources at hand (only the continuous feature is
  there). They follow sections 3, 4.1 and 4.3 of the specification: the allowed mask is
  parallel to the categories; a continuous feature is fixed when lower = upper, a
  categorical one when exactly one category is allowed, a discrete one never; one-hot
  encoding has one 0/1 column per category; ordinal encoding is the rank; dummy encoding
  has one column less (the specification fixes only the width, the first column is dropped
  here); descriptor encoding looks the row of the category up in the descriptor matrix;
  descriptor bounds are the per-column minimum and maximum over the allowed categories.
\<close>

definition get_allowed_categories :: "feature \<Rightarrow> string list" where
  "get_allowed_categories f = map fst (filter snd (zip (categories f) (allowed f)))"

definition get_forbidden_categories :: "feature \<Rightarrow> string list" where
  "get_forbidden_categories f =
     map fst (filter (\<lambda>p. \<not> snd p) (zip (categories f) (allowed f)))"

fun is_fixed :: "feature \<Rightarrow> bool" where
  "is_fixed (ContinuousInput k lo up) = (lo = up)"
| "is_fixed (DiscreteInput k vs) = False"
| "is_fixed f = (length (get_allowed_categories f) = 1)"

definition to_onehot_encoding :: "feature \<Rightarrow> cell \<Rightarrow> real list" where
  "to_onehot_encoding f val = map (\<lambda>c. if Str c = val then 1 else 0) (categories f)"

definition to_ordinal_encoding :: "feature \<Rightarrow> string \<Rightarrow> error + real list" where
  "to_ordinal_encoding f val =
     (case index_of (categories f) val of
        None \<Rightarrow> Inl (ValueError ''category not in categories'')
      | Some i \<Rightarrow> Inr [real i])"

definition to_dummy_encoding :: "feature \<Rightarrow> cell \<Rightarrow> real list" where
  "to_dummy_encoding f val = tl (to_onehot_encoding f val)"

fun descriptor_values :: "feature \<Rightarrow> real list list" where
  "descriptor_values (CategoricalDescriptorInput k cs al ds) = ds"
| "descriptor_values f = []"

fun to_descriptor_encoding :: "feature \<Rightarrow> string \<Rightarrow> error + real list" where
  "to_descriptor_encoding (CategoricalDescriptorInput k cs al ds) val =
     (case index_of cs val of
        None \<Rightarrow> Inl (ValueError ''category not in categories'')
      | Some i \<Rightarrow> (if i < length ds then Inr (ds ! i) else Inl IndexError))"
| "to_descriptor_encoding f val = Inl (ValueError ''Unknown transform type'')"

text \<open>
  \<^verbatim>\<open>feat.fixed_value(transform_type)\<close>: \<open>Inr None\<close> for a feature that is not fixed,
  otherwise the encoded value of its single allowed value, one entry per column. Without
  a transform a categorical feature gives its category label.
\<close>

fun encode_category :: "feature \<Rightarrow> CategoricalEncodingEnum option \<Rightarrow> string \<Rightarrow> error + cell list" where
  "encode_category f None val = Inr [Str val]"
| "encode_category f (Some ONE_HOT) val = Inr (map Num (to_onehot_encoding f (Str val)))"
| "encode_category f (Some ORDINAL) val = map_sum id (map Num) (to_ordinal_encoding f val)"
| "encode_category f (Some DUMMY) val = Inr (map Num (to_dummy_encoding f (Str val)))"
| "encode_category f (Some DESCRIPTOR) val = map_sum id (map Num) (to_descriptor_encoding f val)"

fun fixed_value :: "feature \<Rightarrow> CategoricalEncodingEnum option \<Rightarrow> error + cell list option" where
  "fixed_value (ContinuousInput k lo up) t = (if lo = up then Inr (Some [Num lo]) else Inr None)"
| "fixed_value (DiscreteInput k vs) t = Inr None"
| "fixed_value f t =
     (if is_fixed f
      then map_sum id Some (encode_category f t (hd (get_allowed_categories f)))
      else Inr None)"

text \<open>The rows of the descriptor matrix that belong to allowed categories.\<close>

fun allowed_descriptor_rows :: "feature \<Rightarrow> real list list" where
  "allowed_descriptor_rows (CategoricalDescriptorInput k cs al ds) =
     map fst (filter snd (zip ds al))"
| "allowed_descriptor_rows f = []"

definition column_min :: "real list \<Rightarrow> real" where
  "column_min col = fold min (tl col) (hd col)"

definition column_max :: "real list \<Rightarrow> real" where
  "column_max col = fold max (tl col) (hd col)"

text \<open>\<^verbatim>\<open>feat.get_bounds(CategoricalEncodingEnum.DESCRIPTOR)\<close>: lower and upper per column.\<close>

definition get_bounds_descriptor :: "feature \<Rightarrow> real list \<times> real list" where
  "get_bounds_descriptor f =
     (let cols = transpose (allowed_descriptor_rows f)
      in (map column_min cols, map column_max cols))"

text \<open>
  Modelled from the spec: the domain's feature queries \<^verbatim>\<open>get_features\<close>/\<^verbatim>\<open>get\<close>
  (the features that are instances of one of the given classes and of none of the
  excluded ones, in declaration order) and \<^verbatim>\<open>get_fixed\<close> are missing from the
  sources at hand.
\<close>

definition get_features :: "feature list \<Rightarrow> feature_class list \<Rightarrow> feature_class option \<Rightarrow> feature list" where
  "get_features fs includes excludes =
     filter (\<lambda>f. (\<exists>c \<in> set includes. isinstance f c) \<and>
                 (case excludes of None \<Rightarrow> True | Some c \<Rightarrow> \<not> isinstance f c)) fs"

definition get_fixed :: "feature list \<Rightarrow> feature list" where
  "get_fixed fs = filter is_fixed fs"

definition get_feature :: "feature list \<Rightarrow> key \<Rightarrow> error + feature" where
  "get_feature fs k =
     (case find (\<lambda>f. key_of f = k) fs of None \<Rightarrow> Inl (KeyError k) | Some f \<Rightarrow> Inr f)"

section \<open>Fixed-feature resolver\<close>

text \<open>\<^verbatim>\<open>features2idx[key]\<close> and \<^verbatim>\<open>input_preprocessing_specs[key]\<close>: a missing key raises.\<close>

definition lookup_idx :: "BotorchStrategy \<Rightarrow> key \<Rightarrow> error + nat list" where
  "lookup_idx s k = (case features2idx s k of None \<Rightarrow> Inl (KeyError k) | Some cols \<Rightarrow> Inr cols)"

definition lookup_spec :: "BotorchStrategy \<Rightarrow> key \<Rightarrow> error + CategoricalEncodingEnum" where
  "lookup_spec s k =
     (case map_of (input_preprocessing_specs s) k of None \<Rightarrow> Inl (KeyError k) | Some e \<Rightarrow> Inr e)"

text \<open>
  \<^verbatim>\<open>for j, idx in enumerate(features2idx[feat.key]): fixed_features[idx] = fixed_values[j]\<close>
\<close>

fun pin_columns :: "fixed_features \<Rightarrow> nat list \<Rightarrow> cell list \<Rightarrow> error + fixed_features" where
  "pin_columns d [] vs = Inr d"
| "pin_columns d (idx # idxs) [] = Inl IndexError"
| "pin_columns d (idx # idxs) (v # vs) = pin_columns (d(idx \<mapsto> v)) idxs vs"

text \<open>The body of the first loop of \<^verbatim>\<open>get_fixed_features\<close>, for one feature.\<close>

definition fix_feature :: "BotorchStrategy \<Rightarrow> fixed_features \<Rightarrow> feature \<Rightarrow> error + fixed_features" where
  "fix_feature s d feat =
     (case fixed_value feat None of
        Inl e \<Rightarrow> Inl e
      | Inr None \<Rightarrow> Inr d
      | Inr (Some u) \<Rightarrow>
          (case fixed_value feat (map_of (input_preprocessing_specs s) (key_of feat)) of
             Inl e \<Rightarrow> Inl e
           | Inr None \<Rightarrow> Inl TypeError
           | Inr (Some fixed_values) \<Rightarrow>
               (case lookup_idx s (key_of feat) of
                  Inl e \<Rightarrow> Inl e
                | Inr cols \<Rightarrow> pin_columns d cols fixed_values)))"

text \<open>
  The list comprehension
  \<^verbatim>\<open>[get_by_key(k) for k in get_keys(cls) if input_preprocessing_specs[k] == enc]\<close>;
  keys are unique in a domain, so \<^verbatim>\<open>get_by_key\<close> gives the feature the key came from.
\<close>

fun encoded_as :: "BotorchStrategy \<Rightarrow> CategoricalEncodingEnum \<Rightarrow> feature list \<Rightarrow> error + feature list" where
  "encoded_as s enc [] = Inr []"
| "encoded_as s enc (f # fs) =
     (case lookup_spec s (key_of f) of
        Inl e \<Rightarrow> Inl e
      | Inr e' \<Rightarrow>
          (case encoded_as s enc fs of
             Inl e \<Rightarrow> Inl e
           | Inr r \<Rightarrow> Inr (if e' = enc then f # r else r)))"

text \<open>
  \<^verbatim>\<open>for j, idx in enumerate(features2idx[feat.key]):
      if transformed.values[0, j] == 1.0: fixed_features[idx] = 0\<close>
\<close>

fun pin_where_one :: "fixed_features \<Rightarrow> nat list \<Rightarrow> real list \<Rightarrow> error + fixed_features" where
  "pin_where_one d [] ts = Inr d"
| "pin_where_one d (idx # idxs) [] = Inl IndexError"
| "pin_where_one d (idx # idxs) (t # ts) =
     pin_where_one (if t = 1 then d(idx \<mapsto> Num 0) else d) idxs ts"

definition pin_forbidden_category :: "BotorchStrategy \<Rightarrow> feature \<Rightarrow> fixed_features \<Rightarrow> string \<Rightarrow> error + fixed_features" where
  "pin_forbidden_category s feat d cat =
     (let transformed = to_onehot_encoding feat (Str cat)
      in case lookup_idx s (key_of feat) of
           Inl e \<Rightarrow> Inl e
         | Inr cols \<Rightarrow> pin_where_one d cols transformed)"

definition fix_forbidden :: "BotorchStrategy \<Rightarrow> fixed_features \<Rightarrow> feature \<Rightarrow> error + fixed_features" where
  "fix_forbidden s d feat =
     (if is_fixed feat = False
      then foldM (pin_forbidden_category s feat) d (get_forbidden_categories feat)
      else Inr d)"

text \<open>
  \<^verbatim>\<open>for j, idx in enumerate(features2idx[feat.key]):
      if lower[j] == upper[j]: fixed_features[idx] = lower[j]\<close>
\<close>

fun pin_degenerate :: "fixed_features \<Rightarrow> nat list \<Rightarrow> real list \<Rightarrow> real list \<Rightarrow> error + fixed_features" where
  "pin_degenerate d [] lo up = Inr d"
| "pin_degenerate d (idx # idxs) (l # lo) (u # up) =
     pin_degenerate (if l = u then d(idx \<mapsto> Num l) else d) idxs lo up"
| "pin_degenerate d (idx # idxs) lo up = Inl IndexError"

definition fix_descriptor :: "BotorchStrategy \<Rightarrow> fixed_features \<Rightarrow> feature \<Rightarrow> error + fixed_features" where
  "fix_descriptor s d feat =
     (if is_fixed feat = False
      then (case get_bounds_descriptor feat of (lower, upper) \<Rightarrow>
              (case lookup_idx s (key_of feat) of
                 Inl e \<Rightarrow> Inl e
               | Inr cols \<Rightarrow> pin_degenerate d cols lower upper))
      else Inr d)"

text \<open>The second and third blocks of \<^verbatim>\<open>get_fixed_features\<close>.\<close>

definition fix_forbidden_block :: "BotorchStrategy \<Rightarrow> fixed_features \<Rightarrow> error + fixed_features" where
  "fix_forbidden_block s d =
     (if categorical_method s = FREE \<and> ONE_HOT \<in> set (map snd (input_preprocessing_specs s))
      then (case encoded_as s ONE_HOT (get_features (inputs (domain s)) [CategoricalInput_cls] None) of
              Inl e \<Rightarrow> Inl e
            | Inr feats \<Rightarrow> foldM (fix_forbidden s) d feats)
      else Inr d)"

definition fix_descriptor_block :: "BotorchStrategy \<Rightarrow> fixed_features \<Rightarrow> error + fixed_features" where
  "fix_descriptor_block s d =
     (if descriptor_method s = FREE \<and> DESCRIPTOR \<in> set (map snd (input_preprocessing_specs s))
      then (case encoded_as s DESCRIPTOR
                   (get_features (inputs (domain s)) [CategoricalDescriptorInput_cls] None) of
              Inl e \<Rightarrow> Inl e
            | Inr feats \<Rightarrow> foldM (fix_descriptor s) d feats)
      else Inr d)"

definition get_fixed_features :: "BotorchStrategy \<Rightarrow> error + fixed_features" where
  "get_fixed_features s =
     (case foldM (fix_feature s) Map.empty (get_features (inputs (domain s)) [Input_cls] None) of
        Inl e \<Rightarrow> Inl e
      | Inr d1 \<Rightarrow>
          (case fix_forbidden_block s d1 of
             Inl e \<Rightarrow> Inl e
           | Inr d2 \<Rightarrow> fix_descriptor_block s d2))"

section \<open>Categorical combination enumerator\<close>

text \<open>
  Modelled from the spec: the domain-level enumerator
  \<^verbatim>\<open>domain.inputs.get_categorical_combinations(include, exclude)\<close> is missing from the
  sources at hand. Following section 4.4, step 3, it is the cross-product, in
  lexicographic order over the declaration order of the selected features, of all allowed
  categories of each selected categorical feature and all values of each selected discrete
  feature; a combination is a list of (feature key, value) pairs.
\<close>

fun feature_options :: "feature \<Rightarrow> (key \<times> cell) list option" where
  "feature_options (ContinuousInput k lo up) = None"
| "feature_options (DiscreteInput k vs) = Some (map (\<lambda>v. (k, Num v)) vs)"
| "feature_options f = Some (map (\<lambda>c. (key_of f, Str c)) (get_allowed_categories f))"

definition enumerated_features :: "feature list \<Rightarrow> feature_class list \<Rightarrow> feature_class option \<Rightarrow> feature list" where
  "enumerated_features fs includes excludes =
     filter (\<lambda>f. feature_options f \<noteq> None) (get_features fs includes excludes)"

definition inputs_get_categorical_combinations ::
    "feature list \<Rightarrow> feature_class list \<Rightarrow> feature_class option \<Rightarrow> (key \<times> cell) list list" where
  "inputs_get_categorical_combinations fs includes excludes =
     product_lists (map (\<lambda>f. the (feature_options f)) (enumerated_features fs includes excludes))"

text \<open>
  The classes to enumerate, as the statements of \<^verbatim>\<open>get_categorical_combinations\<close>
  build them: \<^verbatim>\<open>include\<close> and \<^verbatim>\<open>exclude\<close> after each of the three \<^verbatim>\<open>if\<close>s.
\<close>

definition include_exclude :: "BotorchStrategy \<Rightarrow> feature_class list \<times> feature_class option" where
  "include_exclude s =
     (let include0 = [];
          exclude0 = None;
          include1 = (if discrete_method s = EXHAUSTIVE then include0 @ [DiscreteInput_cls] else include0);
          include2 = (if categorical_method s = EXHAUSTIVE then include1 @ [CategoricalInput_cls] else include1);
          exclude2 = (if categorical_method s = EXHAUSTIVE then Some CategoricalDescriptorInput_cls else exclude0);
          include3 = (if descriptor_method s = EXHAUSTIVE then include2 @ [CategoricalDescriptorInput_cls] else include2);
          exclude3 = (if descriptor_method s = EXHAUSTIVE then None else exclude2)
      in (include3, exclude3))"

text \<open>The body of the loop over the pairs of one combination.\<close>

definition apply_pair :: "BotorchStrategy \<Rightarrow> fixed_features \<Rightarrow> key \<times> cell \<Rightarrow> error + fixed_features" where
  "apply_pair s d pair =
     (case pair of (feat, val) \<Rightarrow>
      (case get_feature (inputs (domain s)) feat of
         Inl e \<Rightarrow> Inl e
       | Inr feature \<Rightarrow>
           (case (if isinstance feature CategoricalDescriptorInput_cls
                  then map_sum id (\<lambda>e. e = DESCRIPTOR) (lookup_spec s feat)
                  else Inr False) of
              Inl e \<Rightarrow> Inl e
            | Inr True \<Rightarrow>
                (case index_of (map Str (categories feature)) val of
                   None \<Rightarrow> Inl (ValueError ''value is not in list'')
                 | Some index \<Rightarrow>
                     (case lookup_idx s feat of
                        Inl e \<Rightarrow> Inl e
                      | Inr [] \<Rightarrow> Inr d
                      | Inr cols \<Rightarrow>
                          (if index < length (descriptor_values feature)
                           then pin_columns d cols (map Num (descriptor_values feature ! index))
                           else Inl IndexError)))
            | Inr False \<Rightarrow>
                (if isinstance feature CategoricalInput_cls
                 then (let transformed = to_onehot_encoding feature val
                       in case lookup_idx s feat of
                            Inl e \<Rightarrow> Inl e
                          | Inr cols \<Rightarrow> pin_columns d cols (map Num transformed))
                 else if isinstance feature DiscreteInput_cls
                 then (case lookup_idx s feat of
                         Inl e \<Rightarrow> Inl e
                       | Inr [] \<Rightarrow> Inl IndexError
                       | Inr (c # cs) \<Rightarrow> Inr (d(c \<mapsto> val)))
                 else Inr d))))"

definition apply_combo :: "BotorchStrategy \<Rightarrow> fixed_features \<Rightarrow> (key \<times> cell) list \<Rightarrow> error + fixed_features" where
  "apply_combo s fixed_basis combo = foldM (apply_pair s) fixed_basis combo"

definition get_categorical_combinations :: "BotorchStrategy \<Rightarrow> error + fixed_features list" where
  "get_categorical_combinations s =
     (case get_fixed_features s of
        Inl e \<Rightarrow> Inl e
      | Inr fixed_basis \<Rightarrow>
          (if list_all (\<lambda>m. m = FREE) [descriptor_method s, discrete_method s, categorical_method s]
           then Inr [Map.empty]
           else
             (case include_exclude s of (include, exclude) \<Rightarrow>
                (let combos = inputs_get_categorical_combinations (inputs (domain s))
                                (if include \<noteq> [] then include else [Input_cls]) exclude
                 in if length combos = 1 then Inr [fixed_basis]
                    else mapM (apply_combo s fixed_basis) combos))))"

section \<open>N-choose-k combination enumerator\<close>

text \<open>
  Modelled from the spec: the domain-level enumerator
  \<^verbatim>\<open>domain.get_nchoosek_combinations(exhaustive=True)\<close> is missing from the sources at
  hand. Following section 4.5, every constraint contributes each subset of its feature
  group whose size lies in [min_count, max_count], and the empty subset if none_also_valid;
  the constraints are combined by cross-product; the used features of a combination are
  the chosen subsets together, the unused ones the remaining features of the groups. The
  result is the pair (list of used lists, list of unused lists).
\<close>

definition constraint_subsets :: "NChooseKConstraint \<Rightarrow> key list list" where
  "constraint_subsets c =
     filter (\<lambda>ys. (min_count c \<le> length ys \<and> length ys \<le> max_count c) \<or>
                  (none_also_valid c \<and> ys = []))
            (subseqs (features c))"

definition domain_get_nchoosek_combinations :: "Domain \<Rightarrow> key list list \<times> key list list" where
  "domain_get_nchoosek_combinations dmn =
     (let used_features = map concat (product_lists (map constraint_subsets (nchoosek dmn)));
          features_in_cc = remdups (concat (map features (nchoosek dmn)))
      in (used_features,
          map (\<lambda>used. filter (\<lambda>f_key. f_key \<notin> set used) features_in_cc) used_features))"

text \<open>\<^verbatim>\<open>fixed_values[features2idx[f_key][0]] = 0.0\<close>\<close>

definition pin_unused :: "BotorchStrategy \<Rightarrow> fixed_features \<Rightarrow> key \<Rightarrow> error + fixed_features" where
  "pin_unused s fixed_values f_key =
     (case lookup_idx s f_key of
        Inl e \<Rightarrow> Inl e
      | Inr [] \<Rightarrow> Inl IndexError
      | Inr (c # cs) \<Rightarrow> Inr (fixed_values(c \<mapsto> Num 0)))"

text \<open>
  The strategy's enumerator on the two lists the domain returns: the loop over
  \<^verbatim>\<open>zip(used_features, unused_features)\<close> and the fallback to one empty dictionary.
\<close>

definition nchoosek_fixed_values :: "BotorchStrategy \<Rightarrow> key list list \<times> key list list \<Rightarrow> error + fixed_features list" where
  "nchoosek_fixed_values s uu =
     (case uu of (used_features, unused_features) \<Rightarrow>
      (case mapM (\<lambda>(used, unused). foldM (pin_unused s) Map.empty unused)
                 (zip used_features unused_features) of
         Inl e \<Rightarrow> Inl e
       | Inr fixed_values_list_cc \<Rightarrow>
           Inr (if length fixed_values_list_cc = 0 then fixed_values_list_cc @ [Map.empty]
                else fixed_values_list_cc)))"

definition get_nchoosek_combinations :: "BotorchStrategy \<Rightarrow> error + fixed_features list" where
  "get_nchoosek_combinations s = nchoosek_fixed_values s (domain_get_nchoosek_combinations (domain s))"

section \<open>Fixed-value list composer\<close>

text \<open>\<^verbatim>\<open>ff = ff1.copy(); ff.update(ff2)\<close> is \<open>ff1 ++ ff2\<close>: the right dictionary wins.\<close>

definition get_fixed_values_list :: "BotorchStrategy \<Rightarrow> error + fixed_features list" where
  "get_fixed_values_list s =
     (case get_categorical_combinations s of
        Inl e \<Rightarrow> Inl e
      | Inr ccs \<Rightarrow>
          foldM (\<lambda>fixed_values_full ff1.
                   case get_nchoosek_combinations s of
                     Inl e \<Rightarrow> Inl e
                   | Inr ncs \<Rightarrow> Inr (fixed_values_full @ map (\<lambda>ff2. ff1 ++ ff2) ncs))
                [] ccs)"

section \<open>Sufficient experiments\<close>

definition has_sufficient_experiments :: "BotorchStrategy \<Rightarrow> error + bool" where
  "has_sufficient_experiments s =
     (case experiments s of
        None \<Rightarrow> Inr False
      | Some df \<Rightarrow>
          (case get_fixed_features s of
             Inl e \<Rightarrow> Inl e
           | Inr ff \<Rightarrow>
               (let degrees_of_freedom =
                      int (length (get_features (inputs (domain s)) [Input_cls] None)) - int (card (dom ff))
                in if int (length (rows df)) > degrees_of_freedom + 1 then Inr True else Inr False)))"

section \<open>Ask and tell\<close>

text \<open>
  The collaborators the orchestrator calls and that lie outside the core: the domain's
  validation of experiments (with its \<^verbatim>\<open>strict\<close> flag) and of candidates, the
  preprocessing of the outputs, the surrogate fit, the acquisition-function optimizers and
  the choice from a candidate pool. A collaborator that raises gives \<open>None\<close> (or
  \<open>False\<close> for the fit); the caller turns it into the collaborator's error.
\<close>

datatype optimizer_call =
    Optimize_acqf fixed_features
  | Optimize_acqf_mixed "fixed_features list"

record collaborators =
  validate_experiments :: "bool \<Rightarrow> dataframe \<Rightarrow> dataframe option"
  preprocess_experiments_all_valid_outputs :: "dataframe \<Rightarrow> dataframe"
  validate_candidates :: "dataframe \<Rightarrow> dataframe option"
  surrogate_fit :: "dataframe \<Rightarrow> bool"
  optimizer :: "optimizer_call \<Rightarrow> int \<Rightarrow> dataframe option"
  choose_from_pool :: "dataframe \<Rightarrow> int option \<Rightarrow> dataframe option"

text \<open>\<^verbatim>\<open>pd.concat((a, b), ignore_index=True)\<close> and \<^verbatim>\<open>df[key]\<close>.\<close>

definition concat_frames :: "dataframe \<Rightarrow> dataframe \<Rightarrow> dataframe" where
  "concat_frames a b =
     \<lparr>columns = columns a @ filter (\<lambda>k. k \<notin> set (columns a)) (columns b),
      rows = rows a @ rows b\<rparr>"

definition df_column :: "dataframe \<Rightarrow> key \<Rightarrow> error + cell option list" where
  "df_column df k = (if k \<in> set (columns df) then Inr (map (\<lambda>r. r k) (rows df)) else Inl (KeyError k))"

definition set_experiments :: "collaborators \<Rightarrow> BotorchStrategy \<Rightarrow> dataframe \<Rightarrow> error + BotorchStrategy" where
  "set_experiments c s exps =
     (case validate_experiments c False exps of
        None \<Rightarrow> Inl DomainValidationError
      | Some exps' \<Rightarrow> Inr (s\<lparr>experiments := Some exps'\<rparr>))"

definition add_experiments :: "collaborators \<Rightarrow> BotorchStrategy \<Rightarrow> dataframe \<Rightarrow> error + BotorchStrategy" where
  "add_experiments c s exps =
     (case validate_experiments c False exps of
        None \<Rightarrow> Inl DomainValidationError
      | Some exps' \<Rightarrow>
          (case experiments s of
             None \<Rightarrow> Inr (s\<lparr>experiments := Some exps'\<rparr>)
           | Some old \<Rightarrow> Inr (s\<lparr>experiments := Some (concat_frames old exps')\<rparr>)))"

definition add_candidates :: "collaborators \<Rightarrow> BotorchStrategy \<Rightarrow> dataframe \<Rightarrow> error + BotorchStrategy" where
  "add_candidates c s cands =
     (case validate_candidates c cands of
        None \<Rightarrow> Inl DomainValidationError
      | Some cands' \<Rightarrow>
          (case candidates s of
             None \<Rightarrow> Inr (s\<lparr>candidates := Some cands'\<rparr>)
           | Some old \<Rightarrow> Inr (s\<lparr>candidates := Some (concat_frames old cands')\<rparr>)))"

text \<open>
  \<^verbatim>\<open>BotorchStrategy._ask\<close> up to the call of the optimizer: which optimizer is called
  and with which fixed features. The bounds and the linear constraints handed to the
  optimizer do not take part in the dispatch.
\<close>

definition ask_dispatch :: "BotorchStrategy \<Rightarrow> int option \<Rightarrow> error + optimizer_call" where
  "ask_dispatch s candidate_count =
     (case candidate_count of
        None \<Rightarrow> Inl TypeError
      | Some n \<Rightarrow>
          (if \<not> n > 0 then Inl AssertionError
           else
             (let num_categorical_features =
                    length (get_features (inputs (domain s)) [CategoricalInput_cls, DiscreteInput_cls] None);
                  num_categorical_combinations =
                    length (inputs_get_categorical_combinations (inputs (domain s)) [Input_cls] None)
              in if \<not> acqf s then Inl AssertionError
                 else if (num_categorical_features = 0 \<or> num_categorical_combinations = 1 \<or>
                          list_all (\<lambda>enc. enc = FREE)
                            [categorical_method s, descriptor_method s, discrete_method s]) \<and>
                         length (nchoosek (domain s)) = 0
                 then map_sum id Optimize_acqf (get_fixed_features s)
                 else if EXHAUSTIVE \<in> set [categorical_method s, descriptor_method s, discrete_method s] \<and>
                         length (nchoosek (domain s)) = 0
                 then map_sum id Optimize_acqf_mixed (get_categorical_combinations s)
                 else if length (nchoosek (domain s)) > 0
                 then map_sum id Optimize_acqf_mixed (get_fixed_values_list s)
                 else Inl IOError)))"

text \<open>\<^verbatim>\<open>_ask\<close>: the dispatch, then the optimizer and the post-processing of its result.\<close>

definition private_ask :: "collaborators \<Rightarrow> BotorchStrategy \<Rightarrow> int option \<Rightarrow> error + dataframe" where
  "private_ask c s candidate_count =
     (case ask_dispatch s candidate_count of
        Inl e \<Rightarrow> Inl e
      | Inr call \<Rightarrow>
          (case optimizer c call (the candidate_count) of
             None \<Rightarrow> Inl OptimizerError
           | Some df \<Rightarrow> Inr df))"

text \<open>The error of \<^verbatim>\<open>ask\<close> before enough experiments have been told.\<close>

definition not_enough_experiments_error :: error where
  "not_enough_experiments_error =
     ValueError ''Not enough experiments available to execute the strategy.''"

text \<open>
  \<^verbatim>\<open>Strategy.ask\<close>, the method of the base class. The result is the strategy (changed
  when the candidates are added as pending) and the candidates. The f-string messages are
  kept as their templates.
\<close>

definition Strategy_ask :: "collaborators \<Rightarrow> BotorchStrategy \<Rightarrow> int option \<Rightarrow> bool \<Rightarrow> dataframe option
    \<Rightarrow> error + (BotorchStrategy \<times> dataframe)" where
  "Strategy_ask c s candidate_count add_pending candidate_pool =
     (if candidate_count \<noteq> None \<and> the candidate_count < 1
      then Inl (ValueError ''Candidate_count has to be at least 1 but got {candidate_count}.'')
      else
        (case has_sufficient_experiments s of
           Inl e \<Rightarrow> Inl e
         | Inr False \<Rightarrow> Inl not_enough_experiments_error
         | Inr True \<Rightarrow>
             (case (case candidate_pool of
                      None \<Rightarrow> private_ask c s candidate_count
                    | Some pool \<Rightarrow>
                        (case validate_candidates c pool of
                           None \<Rightarrow> Inl DomainValidationError
                         | Some u \<Rightarrow>
                             (if candidate_count \<noteq> None \<and>
                                 \<not> the candidate_count \<le> int (length (rows pool))
                              then Inl AssertionError
                              else (case choose_from_pool c pool candidate_count of
                                      None \<Rightarrow> Inl OptimizerError
                                    | Some df \<Rightarrow> Inr df)))) of
                Inl e \<Rightarrow> Inl e
              | Inr cands \<Rightarrow>
                  (case validate_candidates c cands of
                     None \<Rightarrow> Inl DomainValidationError
                   | Some u \<Rightarrow>
                       (if candidate_count \<noteq> None \<and> int (length (rows cands)) \<noteq> the candidate_count
                        then Inl (ValueError ''expected {candidate_count} candidates, got {len(candidates)}'')
                        else if add_pending
                        then map_sum id (\<lambda>s'. (s', cands)) (add_candidates c s cands)
                        else Inr (s, cands))))))"

text \<open>
  The parameters that \<^verbatim>\<open>Strategy.ask\<close> declares after \<^verbatim>\<open>self\<close>, and the binding of
  the keyword arguments of a call to the parameters of a method that takes no
  \<^verbatim>\<open>**kwargs\<close>: a keyword that names no parameter raises \<^verbatim>\<open>TypeError\<close> before the
  body of the method runs.
\<close>

definition Strategy_ask_parameters :: "string list" where
  "Strategy_ask_parameters = [''candidate_count'', ''add_pending'', ''candidate_pool'']"

definition bind_keywords :: "string list \<Rightarrow> string list \<Rightarrow> error + unit" where
  "bind_keywords parameters keywords =
     (if list_all (\<lambda>k. k \<in> set parameters) keywords then Inr () else Inl TypeError)"

text \<open>
  \<^verbatim>\<open>PredictiveStrategy.ask\<close>, the method a \<^verbatim>\<open>BotorchStrategy\<close> inherits: it calls
  \<^verbatim>\<open>super().ask\<close> with the keywords \<^verbatim>\<open>candidate_count\<close>, \<^verbatim>\<open>add_pending\<close> and
  \<^verbatim>\<open>raise_validation_error\<close>, then validates the candidates; by its docstring the
  validation raises only when \<^verbatim>\<open>raise_validation_error\<close> is true.
\<close>

definition ask :: "collaborators \<Rightarrow> BotorchStrategy \<Rightarrow> int option \<Rightarrow> bool \<Rightarrow> bool
    \<Rightarrow> error + (BotorchStrategy \<times> dataframe)" where
  "ask c s candidate_count add_pending raise_validation_error =
     (case bind_keywords Strategy_ask_parameters
             [''candidate_count'', ''add_pending'', ''raise_validation_error''] of
        Inl e \<Rightarrow> Inl e
      | Inr u \<Rightarrow>
          (case Strategy_ask c s candidate_count add_pending None of
             Inl e \<Rightarrow> Inl e
           | Inr (s', cands) \<Rightarrow>
               (if raise_validation_error \<and> validate_candidates c cands = None
                then Inl DomainValidationError
                else Inr (s', cands))))"

text \<open>
  \<^verbatim>\<open>PredictiveStrategy.fit\<close> with \<^verbatim>\<open>BotorchStrategy._fit\<close>, and
  \<^verbatim>\<open>BotorchStrategy._tell\<close>, which calls \<^verbatim>\<open>init_acqf\<close>; \<^verbatim>\<open>_init_acqf\<close> is abstract
  in this class, a concrete strategy assigns \<^verbatim>\<open>self.acqf\<close> there.
\<close>

definition fit :: "collaborators \<Rightarrow> BotorchStrategy \<Rightarrow> error + BotorchStrategy" where
  "fit c s =
     (case experiments s of
        None \<Rightarrow> Inl AssertionError
      | Some df \<Rightarrow>
          (if \<not> length (rows df) > 0 then Inl AssertionError
           else (case validate_experiments c True df of
                   None \<Rightarrow> Inl DomainValidationError
                 | Some u \<Rightarrow>
                     (if surrogate_fit c df
                      then Inr (s\<lparr>is_fitted := True, fit_calls := Suc (fit_calls s)\<rparr>)
                      else Inl SurrogateFitError))))"

definition private_tell :: "BotorchStrategy \<Rightarrow> BotorchStrategy" where
  "private_tell s = s\<lparr>acqf := True, init_acqf_calls := Suc (init_acqf_calls s)\<rparr>"

text \<open>The error of the variance check of \<^verbatim>\<open>tell\<close>.\<close>

definition no_variance_error :: error where
  "no_variance_error = ValueError ''No variance in experiments for fixed feature {feature.key}''"

text \<open>The body of the loop of \<^verbatim>\<open>tell\<close> over the fixed features that are no task inputs.\<close>

definition check_variance :: "dataframe \<Rightarrow> unit \<Rightarrow> feature \<Rightarrow> error + unit" where
  "check_variance cleaned_experiments u feature =
     (case fixed_value feature None of
        Inl e \<Rightarrow> Inl e
      | Inr None \<Rightarrow> Inl AssertionError
      | Inr (Some fv) \<Rightarrow>
          (case df_column cleaned_experiments (key_of feature) of
             Inl e \<Rightarrow> Inl e
           | Inr col \<Rightarrow>
               (case fv of
                  [] \<Rightarrow> Inl IndexError
                | v # vs \<Rightarrow>
                    (if list_all (\<lambda>x. x = Some v) col \<and> isinstance feature TaskInput_cls
                     then Inl no_variance_error
                     else Inr ()))))"

definition tell :: "collaborators \<Rightarrow> BotorchStrategy \<Rightarrow> dataframe \<Rightarrow> bool \<Rightarrow> bool \<Rightarrow> error + BotorchStrategy" where
  "tell c s exps replace retrain =
     (if length (rows exps) = 0 then Inr s
      else
        (case (if replace then set_experiments c s exps else add_experiments c s exps) of
           Inl e \<Rightarrow> Inl e
         | Inr s1 \<Rightarrow>
             (let cleaned_experiments = preprocess_experiments_all_valid_outputs c exps;
                  fixed_nontasks = filter (\<lambda>feat. \<not> isinstance feat TaskInput_cls)
                                          (get_fixed (inputs (domain s1)))
              in case foldM (check_variance cleaned_experiments) () fixed_nontasks of
                   Inl e \<Rightarrow> Inl e
                 | Inr u \<Rightarrow>
                     (case (if retrain then has_sufficient_experiments s1 else Inr False) of
                        Inl e \<Rightarrow> Inl e
                      | Inr False \<Rightarrow> Inr s1
                      | Inr True \<Rightarrow> map_sum id private_tell (fit c s1)))))"

section \<open>Validators of the strategy data model\<close>

definition is_power_of_two :: "int \<Rightarrow> bool" where
  "is_power_of_two n \<longleftrightarrow> (n \<noteq> 0) \<and> (n AND (n - 1) = 0)"

definition validate_num_sobol_samples :: "int \<Rightarrow> error + int" where
  "validate_num_sobol_samples v =
     (if is_power_of_two v = False
      then Inl (ValueError ''number sobol samples have to be of the power of 2 to increase performance'')
      else Inr v)"

definition validate_num_raw_samples :: "int \<Rightarrow> error + int" where
  "validate_num_raw_samples v =
     (if is_power_of_two v = False
      then Inl (ValueError ''number raw samples have to be of the power of 2 to increase performance'')
      else Inr v)"

text \<open>The field type \<^verbatim>\<open>PositiveInt\<close>: the value is checked before the field's validator runs.\<close>

definition PositiveInt :: "int \<Rightarrow> error + int" where
  "PositiveInt v = (if v > 0 then Inr v else Inl (ValueError ''ensure this value is greater than 0''))"

record BotorchStrategy_data_model =
  num_sobol_samples :: int
  num_restarts :: int
  num_raw_samples :: int
  dm_descriptor_method :: CategoricalMethodEnum
  dm_categorical_method :: CategoricalMethodEnum
  dm_discrete_method :: CategoricalMethodEnum

text \<open>
  Construction of the data model: the fields are validated in declaration order; the root
  validator \<^verbatim>\<open>update_surrogate_specs_for_domain\<close> (a parameter: it works on the surrogate
  specifications) runs only when every field has passed (\<^verbatim>\<open>skip_on_failure=True\<close>).
  Every failure surfaces as a \<^verbatim>\<open>ValueError\<close>; the first failing field's message is kept.
\<close>

definition BotorchStrategy_init ::
    "(BotorchStrategy_data_model \<Rightarrow> error + BotorchStrategy_data_model)
      \<Rightarrow> int \<Rightarrow> int \<Rightarrow> int \<Rightarrow> CategoricalMethodEnum \<Rightarrow> CategoricalMethodEnum \<Rightarrow> CategoricalMethodEnum
      \<Rightarrow> error + BotorchStrategy_data_model" where
  "BotorchStrategy_init root_validator sobol restarts raw dm cm im =
     (case PositiveInt sobol of Inl e \<Rightarrow> Inl e | Inr v1 \<Rightarrow>
      (case validate_num_sobol_samples v1 of Inl e \<Rightarrow> Inl e | Inr v2 \<Rightarrow>
       (case PositiveInt restarts of Inl e \<Rightarrow> Inl e | Inr v3 \<Rightarrow>
        (case PositiveInt raw of Inl e \<Rightarrow> Inl e | Inr v4 \<Rightarrow>
         (case validate_num_raw_samples v4 of Inl e \<Rightarrow> Inl e | Inr v5 \<Rightarrow>
            root_validator
              \<lparr>num_sobol_samples = v2, num_restarts = v3, num_raw_samples = v5,
               dm_descriptor_method = dm, dm_categorical_method = cm, dm_discrete_method = im\<rparr>)))))"

section \<open>Layout queries and example strategies\<close>

text \<open>The first column of a feature, \<^verbatim>\<open>features2idx[key][0]\<close>, where it exists.\<close>

definition first_column :: "BotorchStrategy \<Rightarrow> key \<Rightarrow> nat option" where
  "first_column s k = (case features2idx s k of Some (c # cs) \<Rightarrow> Some c | _ \<Rightarrow> None)"

text \<open>The columns of a feature, none when the layout lacks its key.\<close>

definition columns_of :: "BotorchStrategy \<Rightarrow> feature \<Rightarrow> nat list" where
  "columns_of s f = (case features2idx s (key_of f) of None \<Rightarrow> [] | Some cols \<Rightarrow> cols)"

text \<open>
  A layout is disjoint when no feature of the domain has a column twice and no two
  features share a column.
\<close>

definition layout_disjoint :: "BotorchStrategy \<Rightarrow> bool" where
  "layout_disjoint s \<longleftrightarrow>
     (\<forall>f \<in> set (inputs (domain s)). distinct (columns_of s f)) \<and>
     (\<forall>f \<in> set (inputs (domain s)). \<forall>g \<in> set (inputs (domain s)).
        f \<noteq> g \<longrightarrow> set (columns_of s f) \<inter> set (columns_of s g) = {})"

text \<open>
  A domain with continuous inputs \<open>a\<close>, \<open>c\<close> in [0, 1], a continuous input \<open>b\<close> fixed
  at 3 and a one-hot encoded categorical input \<open>d\<close> with categories x, y, z of which z is
  forbidden; the layout gives \<open>a\<close>, \<open>b\<close>, \<open>c\<close> the columns 0, 1, 2 and \<open>d\<close> the
  columns 3, 4, 5. The strategy takes the method of all three classes and the n-choose-k
  constraints as arguments.
\<close>

definition ex_inputs :: "feature list" where
  "ex_inputs = [ContinuousInput ''a'' 0 1, ContinuousInput ''b'' 3 3, ContinuousInput ''c'' 0 1,
                CategoricalInput ''d'' [''x'', ''y'', ''z''] [True, True, False]]"

definition ex_layout :: "key \<rightharpoonup> nat list" where
  "ex_layout = map_of [(''a'', [0]), (''b'', [1]), (''c'', [2]), (''d'', [3, 4, 5])]"

definition ex_nchoosek :: NChooseKConstraint where
  "ex_nchoosek = \<lparr>features = [''a'', ''c''], min_count = 1, max_count = 1, none_also_valid = False\<rparr>"

definition ex_strategy :: "CategoricalMethodEnum \<Rightarrow> NChooseKConstraint list \<Rightarrow> BotorchStrategy" where
  "ex_strategy m cs =
     \<lparr>domain = \<lparr>inputs = ex_inputs, nchoosek = cs\<rparr>,
      input_preprocessing_specs = [(''d'', ONE_HOT)],
      features2idx = ex_layout,
      descriptor_method = m, categorical_method = m, discrete_method = m,
      experiments = None, candidates = None, is_fitted = False, acqf = True,
      fit_calls = 0, init_acqf_calls = 0\<rparr>"

text \<open>
  The features \<open>get_categorical_combinations\<close> enumerates and the combinations it
  obtains for them, as in its call of the domain-level enumerator.
\<close>

definition enumerated :: "BotorchStrategy \<Rightarrow> feature list" where
  "enumerated s =
     (case include_exclude s of (include, exclude) \<Rightarrow>
        enumerated_features (inputs (domain s)) (if include \<noteq> [] then include else [Input_cls]) exclude)"

definition combos_of :: "BotorchStrategy \<Rightarrow> (key \<times> cell) list list" where
  "combos_of s =
     (case include_exclude s of (include, exclude) \<Rightarrow>
        inputs_get_categorical_combinations (inputs (domain s))
          (if include \<noteq> [] then include else [Input_cls]) exclude)"

text \<open>
  A domain with a continuous input \<open>a\<close>, a descriptor-encoded categorical input \<open>e\<close>
  with categories p, q and descriptor rows (1, 2), (3, 7), and a one-hot encoded
  categorical input \<open>d\<close> with categories x, y; the strategy takes the categorical and the
  descriptor method as arguments.
\<close>

definition ex_desc :: "CategoricalMethodEnum \<Rightarrow> CategoricalMethodEnum \<Rightarrow> BotorchStrategy" where
  "ex_desc cm dm =
     \<lparr>domain = \<lparr>inputs = [ContinuousInput ''a'' 0 1,
                          CategoricalDescriptorInput ''e'' [''p'', ''q''] [True, True] [[1, 2], [3, 7]],
                          CategoricalInput ''d'' [''x'', ''y''] [True, True]],
                nchoosek = []\<rparr>,
      input_preprocessing_specs = [(''e'', DESCRIPTOR), (''d'', ONE_HOT)],
      features2idx = map_of [(''a'', [0]), (''e'', [1, 2]), (''d'', [3, 4])],
      descriptor_method = dm, categorical_method = cm, discrete_method = FREE,
      experiments = None, candidates = None, is_fitted = False, acqf = True,
      fit_calls = 0, init_acqf_calls = 0\<rparr>"

text \<open>
  A domain whose only categorical input \<open>d\<close> has a single allowed category, enumerated
  exhaustively, without n-choose-k constraints.
\<close>

definition ex_single :: BotorchStrategy where
  "ex_single =
     \<lparr>domain = \<lparr>inputs = [ContinuousInput ''a'' 0 1,
                          CategoricalInput ''d'' [''x'', ''y''] [True, False]],
                nchoosek = []\<rparr>,
      input_preprocessing_specs = [(''d'', ONE_HOT)],
      features2idx = map_of [(''a'', [0]), (''d'', [1, 2])],
      descriptor_method = EXHAUSTIVE, categorical_method = EXHAUSTIVE,
      discrete_method = EXHAUSTIVE,
      experiments = None, candidates = None, is_fitted = False, acqf = True,
      fit_calls = 0, init_acqf_calls = 0\<rparr>"

text \<open>
  A data frame of \<open>n\<close> equal experiments on the inputs of \<open>ex_inputs\<close>, collaborators
  that accept every frame and always fit, and the example strategy after ten experiments
  have been stored.
\<close>

definition ex_frame :: "nat \<Rightarrow> dataframe" where
  "ex_frame n =
     \<lparr>columns = [''a'', ''b'', ''c'', ''d''],
      rows = replicate n (map_of [(''a'', Num 0), (''b'', Num 3), (''c'', Num 0), (''d'', Str ''x'')])\<rparr>"

definition ex_collaborators :: collaborators where
  "ex_collaborators =
     \<lparr>validate_experiments = (\<lambda>strict df. Some df),
      preprocess_experiments_all_valid_outputs = (\<lambda>df. df),
      validate_candidates = (\<lambda>df. Some df),
      surrogate_fit = (\<lambda>df. True),
      optimizer = (\<lambda>call q. Some (ex_frame (nat q))),
      choose_from_pool = (\<lambda>pool q. Some pool)\<rparr>"

definition ex_told :: BotorchStrategy where
  "ex_told = (ex_strategy EXHAUSTIVE [])\<lparr>experiments := Some (ex_frame 10)\<rparr>"

section \<open>Evaluation of the examples\<close>

lemmas ex_defs = ex_inputs_def ex_layout_def ex_nchoosek_def ex_strategy_def

lemmas resolver_defs = get_fixed_features_def fix_feature_def fix_forbidden_block_def
  fix_descriptor_block_def fix_forbidden_def fix_descriptor_def pin_forbidden_category_def
  lookup_idx_def lookup_spec_def get_features_def get_forbidden_categories_def
  get_allowed_categories_def to_onehot_encoding_def get_bounds_descriptor_def

lemmas enumerator_defs = include_exclude_def inputs_get_categorical_combinations_def
  enumerated_features_def apply_combo_def apply_pair_def get_feature_def

lemmas nchoosek_defs = get_nchoosek_combinations_def nchoosek_fixed_values_def Let_def
  domain_get_nchoosek_combinations_def constraint_subsets_def pin_unused_def

lemma ex_free_fixed:
  "get_fixed_features (ex_strategy FREE cs) = Inr [1 \<mapsto> Num 3, 5 \<mapsto> Num 0]"
  by (simp add: ex_defs resolver_defs)

lemma ex_exh_fixed:
  "get_fixed_features (ex_strategy EXHAUSTIVE cs) = Inr [1 \<mapsto> Num 3]"
  by (simp add: ex_defs resolver_defs)

lemma ex_free_cc:
  "get_categorical_combinations (ex_strategy FREE cs) = Inr [Map.empty]"
  by (simp add: ex_free_fixed get_categorical_combinations_def) (simp add: ex_defs)

lemma ex_exh_cc:
  "get_categorical_combinations (ex_strategy EXHAUSTIVE cs) =
     Inr [[1 \<mapsto> Num 3, 3 \<mapsto> Num 1, 4 \<mapsto> Num 0, 5 \<mapsto> Num 0],
          [1 \<mapsto> Num 3, 3 \<mapsto> Num 0, 4 \<mapsto> Num 1, 5 \<mapsto> Num 0]]"
  by (simp add: ex_exh_fixed get_categorical_combinations_def)
     (simp add: ex_defs enumerator_defs get_features_def get_allowed_categories_def
        lookup_idx_def lookup_spec_def to_onehot_encoding_def)

lemma ex_nck:
  "get_nchoosek_combinations (ex_strategy m [ex_nchoosek]) = Inr [[2 \<mapsto> Num 0], [0 \<mapsto> Num 0]]"
  by (simp add: ex_defs nchoosek_defs lookup_idx_def)

text \<open>
  Two scenarios of the specification: sizes 1 to 2 over a group of three features give six
  subsets, and a categorical input with three allowed categories together with a discrete
  input with two values gives six combinations.
\<close>

lemma six_subsets:
  "length (constraint_subsets
     \<lparr>features = [''a'', ''b'', ''c''], min_count = 1, max_count = 2, none_also_valid = False\<rparr>) = 6"
  by (simp add: constraint_subsets_def)

lemma six_combinations:
  "length (inputs_get_categorical_combinations
     [CategoricalInput ''d'' [''x'', ''y'', ''z''] [True, True, True], DiscreteInput ''n'' [1, 2]]
     [Input_cls] None) = 6"
  by (simp add: inputs_get_categorical_combinations_def enumerated_features_def get_features_def
      get_allowed_categories_def)

lemma ex_nck0:
  "get_nchoosek_combinations (ex_strategy m []) = Inr [Map.empty]"
  by (simp add: ex_defs nchoosek_defs lookup_idx_def)

section \<open>Powers of two\<close>

lemma and_pred_pos:
  fixes n :: int
  assumes "0 < n"
  shows "n AND (n - 1) = 0 \<longleftrightarrow> (\<exists>k. n = 2 ^ k)"
  using assms
proof (induction "nat n" arbitrary: n rule: less_induct)
  case less
  show ?case
  proof (cases "even n")
    case True
    then obtain m where m: "n = 2 * m" by (auto elim: evenE)
    with less.prems have mpos: "0 < m" by simp
    have "nat m < nat n" using m mpos by simp
    from less.hyps[OF this mpos] have IH: "m AND (m - 1) = 0 \<longleftrightarrow> (\<exists>k. m = 2 ^ k)" .
    have d: "(n - 1) div 2 = m - 1" using m by simp
    have e: "n AND (n - 1) = 2 * (m AND (m - 1))"
      by (subst and_int_rec) (simp add: d, simp add: m)
    have "(\<exists>k. n = 2 ^ k) \<longleftrightarrow> (\<exists>k. m = 2 ^ k)"
    proof
      assume "\<exists>k. n = 2 ^ k"
      then obtain k where k: "n = 2 ^ k" ..
      with m mpos have "k \<noteq> 0" by (cases k) auto
      then obtain j where "k = Suc j" by (cases k) auto
      with k m have "m = 2 ^ j" by simp
      then show "\<exists>k. m = 2 ^ k" ..
    next
      assume "\<exists>k. m = 2 ^ k"
      then obtain k where "m = 2 ^ k" ..
      with m have "n = 2 ^ Suc k" by simp
      then show "\<exists>k. n = 2 ^ k" ..
    qed
    with e IH show ?thesis by simp
  next
    case False
    then obtain m where m: "n = 2 * m + 1" by (auto elim: oddE)
    have d: "(n - 1) div 2 = m" "n div 2 = m" using m by simp_all
    have "odd n" "even (n - 1)" using False by simp_all
    then have e: "n AND (n - 1) = 2 * m"
      by (subst and_int_rec) (simp add: d)
    have "(\<exists>k. n = 2 ^ k) \<longleftrightarrow> m = 0"
    proof
      assume "\<exists>k. n = 2 ^ k"
      then obtain k where k: "n = 2 ^ k" ..
      show "m = 0"
      proof (cases k)
        case 0
        with k m show ?thesis by simp
      next
        case (Suc j)
        with k have "even n" by simp
        with False show ?thesis by simp
      qed
    next
      assume "m = 0"
      with m have "n = 2 ^ 0" by simp
      then show "\<exists>k. n = 2 ^ k" ..
    qed
    with e show ?thesis by simp
  qed
qed

lemma nonpos_not_pow2: "(n::int) \<le> 0 \<Longrightarrow> n \<noteq> 2 ^ k"
  by (metis not_le zero_less_numeral zero_less_power)

lemma is_power_of_two_iff: "is_power_of_two n \<longleftrightarrow> (\<exists>k. n = 2 ^ k)"
proof (cases "0 < n")
  case True
  then show ?thesis by (simp add: is_power_of_two_def and_pred_pos)
next
  case False
  then have np: "n \<le> 0" by simp
  have "\<not> is_power_of_two n"
  proof (cases "n = 0")
    case True then show ?thesis by (simp add: is_power_of_two_def)
  next
    case False
    with np have "n < 0" "n - 1 < 0" by simp_all
    then have "n AND (n - 1) < 0" by simp
    then have "n AND (n - 1) \<noteq> 0" by linarith
    then show ?thesis by (simp add: is_power_of_two_def)
  qed
  with np show ?thesis using nonpos_not_pow2 by blast
qed

text \<open>
  Claim C10. Constructing the strategy data model succeeds only if \<open>num_sobol_samples\<close>
  and \<open>num_raw_samples\<close> are powers of two; a positive \<open>num_sobol_samples\<close> that is
  no power of two is rejected with the validator's \<open>ValueError\<close>, and so is such a
  \<open>num_raw_samples\<close> once the fields before it have passed; whenever one of the two is
  no power of two the constructor raises a \<open>ValueError\<close>. \<open>is_power_of_two\<close>, the
  test \<^verbatim>\<open>n != 0 and n & (n - 1) == 0\<close> on Python's unbounded integers, holds exactly
  for the powers of two.
\<close>

theorem data_model_requires_powers_of_two:
  "(BotorchStrategy_init rv sobol restarts raw dm cm im = Inr m \<longrightarrow>
      (\<exists>j. sobol = 2 ^ j) \<and> (\<exists>k. raw = 2 ^ k)) \<and>
   (0 < sobol \<and> (\<forall>j. sobol \<noteq> 2 ^ j) \<longrightarrow>
      BotorchStrategy_init rv sobol restarts raw dm cm im =
        Inl (ValueError ''number sobol samples have to be of the power of 2 to increase performance'')) \<and>
   ((\<exists>j. sobol = 2 ^ j) \<and> 0 < restarts \<and> 0 < raw \<and> (\<forall>k. raw \<noteq> 2 ^ k) \<longrightarrow>
      BotorchStrategy_init rv sobol restarts raw dm cm im =
        Inl (ValueError ''number raw samples have to be of the power of 2 to increase performance'')) \<and>
   (\<not> ((\<exists>j. sobol = 2 ^ j) \<and> (\<exists>k. raw = 2 ^ k)) \<longrightarrow>
      (\<exists>msg. BotorchStrategy_init rv sobol restarts raw dm cm im = Inl (ValueError msg))) \<and>
   (is_power_of_two sobol \<longleftrightarrow> (\<exists>j. sobol = 2 ^ j))"
proof (intro conjI impI)
  assume a: "BotorchStrategy_init rv sobol restarts raw dm cm im = Inr m"
  then have "is_power_of_two sobol" "is_power_of_two raw"
    by (auto simp: BotorchStrategy_init_def PositiveInt_def validate_num_sobol_samples_def
        validate_num_raw_samples_def split: if_splits sum.splits)
  then show "\<exists>j. sobol = 2 ^ j" "\<exists>k. raw = 2 ^ k"
    by (simp_all add: is_power_of_two_iff)
next
  assume "0 < sobol \<and> (\<forall>j. sobol \<noteq> 2 ^ j)"
  then have "0 < sobol" "\<not> is_power_of_two sobol" by (simp_all add: is_power_of_two_iff)
  then show "BotorchStrategy_init rv sobol restarts raw dm cm im =
        Inl (ValueError ''number sobol samples have to be of the power of 2 to increase performance'')"
    by (simp add: BotorchStrategy_init_def PositiveInt_def validate_num_sobol_samples_def)
next
  assume "(\<exists>j. sobol = 2 ^ j) \<and> 0 < restarts \<and> 0 < raw \<and> (\<forall>k. raw \<noteq> 2 ^ k)"
  then have "is_power_of_two sobol" "0 < restarts" "0 < raw" "\<not> is_power_of_two raw"
    by (simp_all add: is_power_of_two_iff)
  moreover from \<open>is_power_of_two sobol\<close> have "0 < sobol"
    by (metis is_power_of_two_iff zero_less_numeral zero_less_power)
  ultimately show "BotorchStrategy_init rv sobol restarts raw dm cm im =
        Inl (ValueError ''number raw samples have to be of the power of 2 to increase performance'')"
    by (simp add: BotorchStrategy_init_def PositiveInt_def validate_num_sobol_samples_def
        validate_num_raw_samples_def)
next
  assume "\<not> ((\<exists>j. sobol = 2 ^ j) \<and> (\<exists>k. raw = 2 ^ k))"
  then have "\<not> is_power_of_two sobol \<or> \<not> is_power_of_two raw"
    by (simp add: is_power_of_two_iff)
  then show "\<exists>msg. BotorchStrategy_init rv sobol restarts raw dm cm im = Inl (ValueError msg)"
    by (auto simp: BotorchStrategy_init_def PositiveInt_def validate_num_sobol_samples_def
        validate_num_raw_samples_def)
next
  show "is_power_of_two sobol \<longleftrightarrow> (\<exists>j. sobol = 2 ^ j)" by (rule is_power_of_two_iff)
qed

theorem data_model_requires_powers_of_two_witness:
  "BotorchStrategy_init Inr 512 8 1024 EXHAUSTIVE EXHAUSTIVE EXHAUSTIVE =
     Inr \<lparr>num_sobol_samples = 512, num_restarts = 8, num_raw_samples = 1024,
          dm_descriptor_method = EXHAUSTIVE, dm_categorical_method = EXHAUSTIVE,
          dm_discrete_method = EXHAUSTIVE\<rparr> \<and>
   (\<exists>j. (512::int) = 2 ^ j) \<and> (\<exists>k. (1024::int) = 2 ^ k) \<and>
   BotorchStrategy_init Inr 5 8 1024 EXHAUSTIVE EXHAUSTIVE EXHAUSTIVE =
     Inl (ValueError ''number sobol samples have to be of the power of 2 to increase performance'') \<and>
   BotorchStrategy_init Inr 512 8 5 EXHAUSTIVE EXHAUSTIVE EXHAUSTIVE =
     Inl (ValueError ''number raw samples have to be of the power of 2 to increase performance'')"
proof -
  have ok: "BotorchStrategy_init Inr 512 8 1024 EXHAUSTIVE EXHAUSTIVE EXHAUSTIVE =
     Inr \<lparr>num_sobol_samples = 512, num_restarts = 8, num_raw_samples = 1024,
          dm_descriptor_method = EXHAUSTIVE, dm_categorical_method = EXHAUSTIVE,
          dm_discrete_method = EXHAUSTIVE\<rparr>"
    by (simp add: BotorchStrategy_init_def PositiveInt_def validate_num_sobol_samples_def
        validate_num_raw_samples_def is_power_of_two_def)
  have n5: "\<not> is_power_of_two 5" by (simp add: is_power_of_two_def)
  have five: "\<forall>j. (5::int) \<noteq> 2 ^ j"
    using data_model_requires_powers_of_two [of Inr 5 8 1024 EXHAUSTIVE EXHAUSTIVE EXHAUSTIVE] n5
    by metis
  from ok data_model_requires_powers_of_two [of Inr 512 8 1024 EXHAUSTIVE EXHAUSTIVE EXHAUSTIVE]
  have p: "(\<exists>j. (512::int) = 2 ^ j) \<and> (\<exists>k. (1024::int) = 2 ^ k)" by blast
  have s: "BotorchStrategy_init Inr 5 8 1024 EXHAUSTIVE EXHAUSTIVE EXHAUSTIVE =
     Inl (ValueError ''number sobol samples have to be of the power of 2 to increase performance'')"
    using data_model_requires_powers_of_two [of Inr 5 8 1024 EXHAUSTIVE EXHAUSTIVE EXHAUSTIVE] five
    by simp
  have r: "BotorchStrategy_init Inr 512 8 5 EXHAUSTIVE EXHAUSTIVE EXHAUSTIVE =
     Inl (ValueError ''number raw samples have to be of the power of 2 to increase performance'')"
    using data_model_requires_powers_of_two [of Inr 512 8 5 EXHAUSTIVE EXHAUSTIVE EXHAUSTIVE] five p
    by simp
  from ok p s r show ?thesis by blast
qed

section \<open>Categorical combinations without enumeration\<close>

text \<open>
  Claim C1, as amended. When all three methods are FREE, \<open>get_categorical_combinations\<close>
  returns the one-element list holding the empty dictionary (and raises what
  \<open>get_fixed_features\<close> raises); the list holds the base fixed-feature dictionary
  exactly when that dictionary is empty.
\<close>

theorem free_combinations_empty_dictionary:
  assumes "descriptor_method s = FREE" and "discrete_method s = FREE"
    and "categorical_method s = FREE"
  shows "get_categorical_combinations s = map_sum id (\<lambda>b. [Map.empty]) (get_fixed_features s) \<and>
         (\<forall>b. get_fixed_features s = Inr b \<longrightarrow>
            (get_categorical_combinations s = Inr [b] \<longleftrightarrow> b = Map.empty))"
  using assms by (auto simp: get_categorical_combinations_def split: sum.splits)

theorem free_combinations_empty_dictionary_witness:
  "get_categorical_combinations (ex_strategy FREE []) = Inr [Map.empty] \<and>
   get_fixed_features (ex_strategy FREE []) = Inr [1 \<mapsto> Num 3, 5 \<mapsto> Num 0]"
proof -
  have m: "descriptor_method (ex_strategy FREE []) = FREE"
    "discrete_method (ex_strategy FREE []) = FREE"
    "categorical_method (ex_strategy FREE []) = FREE"
    by (simp_all add: ex_strategy_def)
  from free_combinations_empty_dictionary [OF m] ex_free_fixed [of "[]"]
  show ?thesis by simp
qed

text \<open>
  The claim as stated fails: with all methods FREE and a non-empty base dictionary (the
  fixed input \<open>b\<close> and the forbidden category z are pinned) the result is not the list
  holding the base dictionary.
\<close>

theorem free_combinations_counterexample:
  "descriptor_method (ex_strategy FREE []) = FREE \<and>
   discrete_method (ex_strategy FREE []) = FREE \<and>
   categorical_method (ex_strategy FREE []) = FREE \<and>
   get_fixed_features (ex_strategy FREE []) = Inr [1 \<mapsto> Num 3, 5 \<mapsto> Num 0] \<and>
   get_categorical_combinations (ex_strategy FREE []) \<noteq> Inr [[1 \<mapsto> Num 3, 5 \<mapsto> Num 0]]"
proof -
  have "Map.empty \<noteq> [(1::nat) \<mapsto> Num 3, 5 \<mapsto> Num (0::real)]"
    by (metis map_upd_nonempty)
  then have "get_categorical_combinations (ex_strategy FREE []) \<noteq> Inr [[1 \<mapsto> Num 3, 5 \<mapsto> Num 0]]"
    by (simp add: ex_free_cc)
  then show ?thesis by (simp add: ex_free_fixed) (simp add: ex_strategy_def)
qed

section \<open>N-choose-k enumerator\<close>

lemma mapM_Inr:
  "mapM f xs = Inr ys \<Longrightarrow> length ys = length xs \<and> (\<forall>i < length xs. f (xs ! i) = Inr (ys ! i))"
proof (induction xs arbitrary: ys)
  case Nil
  then show ?case by simp
next
  case (Cons x xs)
  from Cons.prems obtain y ys' where y: "f x = Inr y" and ys': "mapM f xs = Inr ys'"
    and e: "ys = y # ys'"
    by (auto split: sum.splits)
  from Cons.IH [OF ys'] have l: "length ys' = length xs"
    and n: "\<forall>i < length xs. f (xs ! i) = Inr (ys' ! i)" by simp_all
  show ?case
  proof (intro conjI allI impI)
    show "length ys = length (x # xs)" using e l by simp
  next
    fix i assume "i < length (x # xs)"
    then show "f ((x # xs) ! i) = Inr (ys ! i)"
      using y n e by (cases i) simp_all
  qed
qed

lemma mapM_total:
  "(\<And>x. x \<in> set xs \<Longrightarrow> \<exists>y. f x = Inr y) \<Longrightarrow> \<exists>ys. mapM f xs = Inr ys"
proof (induction xs)
  case Nil
  then show ?case by simp
next
  case (Cons x xs)
  then obtain y where "f x = Inr y" by auto
  moreover from Cons obtain ys where "mapM f xs = Inr ys" by auto
  ultimately show ?case by simp
qed

lemma pin_unused_Inr:
  "pin_unused s d k = Inr d' \<Longrightarrow> \<exists>c. first_column s k = Some c \<and> d' = d(c \<mapsto> Num 0)"
  by (auto simp: pin_unused_def lookup_idx_def first_column_def split: option.splits list.splits)

lemma pin_unused_total:
  "first_column s k = Some c \<Longrightarrow> pin_unused s d k = Inr (d(c \<mapsto> Num 0))"
  by (auto simp: pin_unused_def lookup_idx_def first_column_def split: option.splits list.splits)

lemma foldM_pin_unused:
  "foldM (pin_unused s) d ks = Inr d' \<Longrightarrow>
     (\<forall>k \<in> set ks. first_column s k \<noteq> None) \<and>
     (\<forall>x. d' x = (if \<exists>k \<in> set ks. first_column s k = Some x then Some (Num 0) else d x))"
proof (induction ks arbitrary: d)
  case Nil
  then show ?case by simp
next
  case (Cons k ks)
  from Cons.prems obtain d1 where s1: "pin_unused s d k = Inr d1"
    and r: "foldM (pin_unused s) d1 ks = Inr d'"
    by (auto split: sum.splits)
  from pin_unused_Inr [OF s1] obtain c where c: "first_column s k = Some c" "d1 = d(c \<mapsto> Num 0)"
    by blast
  from Cons.IH [OF r] c show ?case by auto
qed

lemma foldM_pin_unused_total:
  "(\<And>k. k \<in> set ks \<Longrightarrow> first_column s k \<noteq> None) \<Longrightarrow> \<exists>d'. foldM (pin_unused s) d ks = Inr d'"
proof (induction ks arbitrary: d)
  case Nil
  then show ?case by simp
next
  case (Cons k ks)
  then obtain c where "first_column s k = Some c" by auto
  then have "pin_unused s d k = Inr (d(c \<mapsto> Num 0))" by (rule pin_unused_total)
  moreover from Cons have "\<exists>d'. foldM (pin_unused s) (d(c \<mapsto> Num 0)) ks = Inr d'" by simp
  ultimately show ?case by simp
qed

lemma domain_nchoosek_shape:
  assumes "domain_get_nchoosek_combinations dmn = (used, unused)"
  shows "length unused = length used"
    and "i < length used \<Longrightarrow> set (used ! i) \<inter> set (unused ! i) = {}"
    and "i < length used \<Longrightarrow> set (unused ! i) \<subseteq> (\<Union>c \<in> set (nchoosek dmn). set (features c))"
    and "nchoosek dmn = [] \<Longrightarrow> used = [[]] \<and> unused = [[]]"
  using assms by (auto simp: domain_get_nchoosek_combinations_def Let_def)


text \<open>
  Claim C4. \<open>get_nchoosek_combinations\<close> never returns an empty list, and it returns
  whenever every constrained feature has a column; without n-choose-k constraints the
  result is the one empty dictionary; otherwise the i-th dictionary belongs to the i-th
  generated subset: it maps the first column of every unused feature to 0, these columns
  are its only keys, and the column of a used feature is absent from it (unless the layout
  gives an unused feature the same column).
\<close>

theorem nchoosek_combinations_pin_unused:
  "(get_nchoosek_combinations s = Inr l \<longrightarrow> l \<noteq> []) \<and>
   (nchoosek (domain s) = [] \<longrightarrow> get_nchoosek_combinations s = Inr [Map.empty]) \<and>
   ((\<forall>c \<in> set (nchoosek (domain s)). \<forall>k \<in> set (features c). first_column s k \<noteq> None) \<longrightarrow>
      (\<exists>r. get_nchoosek_combinations s = Inr r)) \<and>
   (get_nchoosek_combinations s = Inr l \<and>
    domain_get_nchoosek_combinations (domain s) = (used, unused) \<and> used \<noteq> [] \<longrightarrow>
      length l = length used \<and>
      (\<forall>i < length used.
         set (used ! i) \<inter> set (unused ! i) = {} \<and>
         (\<forall>k \<in> set (unused ! i). \<exists>c. first_column s k = Some c \<and> (l ! i) c = Some (Num 0)) \<and>
         dom (l ! i) = {c. \<exists>k \<in> set (unused ! i). first_column s k = Some c} \<and>
         (\<forall>k \<in> set (used ! i). \<forall>c. first_column s k = Some c \<and>
              (\<forall>k' \<in> set (unused ! i). first_column s k' \<noteq> Some c) \<longrightarrow> c \<notin> dom (l ! i))))"
proof (intro conjI impI)
  assume "get_nchoosek_combinations s = Inr l"
  then show "l \<noteq> []"
    by (auto simp: get_nchoosek_combinations_def nchoosek_fixed_values_def
        split: prod.splits sum.splits if_splits)
next
  assume "nchoosek (domain s) = []"
  then show "get_nchoosek_combinations s = Inr [Map.empty]"
    by (simp add: get_nchoosek_combinations_def nchoosek_fixed_values_def
        domain_get_nchoosek_combinations_def Let_def)
next
  assume cov: "\<forall>c \<in> set (nchoosek (domain s)). \<forall>k \<in> set (features c). first_column s k \<noteq> None"
  obtain us uns where d: "domain_get_nchoosek_combinations (domain s) = (us, uns)"
    by (cases "domain_get_nchoosek_combinations (domain s)")
  let ?g = "\<lambda>(used :: key list, unused). foldM (pin_unused s) Map.empty unused"
  have tot: "\<exists>y. ?g p = Inr y" if "p \<in> set (zip us uns)" for p
  proof -
    obtain a b where p: "p = (a, b)" by (cases p)
    with that obtain i where i: "i < length us" "i < length uns" "b = uns ! i"
      by (auto simp: set_zip)
    have "set b \<subseteq> (\<Union>c \<in> set (nchoosek (domain s)). set (features c))"
      using domain_nchoosek_shape(3) [OF d i(1)] i by simp
    with cov have "\<And>k. k \<in> set b \<Longrightarrow> first_column s k \<noteq> None" by blast
    from foldM_pin_unused_total [OF this] p show ?thesis by simp
  qed
  have "\<exists>ys. mapM ?g (zip us uns) = Inr ys"
    by (rule mapM_total [where f = ?g and xs = "zip us uns"]) (rule tot)
  then obtain ys where "mapM ?g (zip us uns) = Inr ys" ..
  with d show "\<exists>r. get_nchoosek_combinations s = Inr r"
    by (simp add: get_nchoosek_combinations_def nchoosek_fixed_values_def)
next
  assume a: "get_nchoosek_combinations s = Inr l \<and>
    domain_get_nchoosek_combinations (domain s) = (used, unused) \<and> used \<noteq> []"
  then have d: "domain_get_nchoosek_combinations (domain s) = (used, unused)"
    and ne: "used \<noteq> []" and r: "get_nchoosek_combinations s = Inr l" by simp_all
  have len: "length unused = length used" by (rule domain_nchoosek_shape(1) [OF d])
  from r d obtain ys
    where m: "mapM (\<lambda>(used, unused). foldM (pin_unused s) Map.empty unused) (zip used unused) = Inr ys"
      and l: "l = (if length ys = 0 then ys @ [Map.empty] else ys)"
    by (auto simp: get_nchoosek_combinations_def nchoosek_fixed_values_def split: sum.splits)
  from mapM_Inr [OF m] len have ly: "length ys = length used"
    and el: "\<forall>i < length used. foldM (pin_unused s) Map.empty (unused ! i) = Inr (ys ! i)"
    by simp_all
  from ly ne l have ll: "l = ys" by simp
  show "length l = length used" using ll ly by simp
  show "\<forall>i < length used.
         set (used ! i) \<inter> set (unused ! i) = {} \<and>
         (\<forall>k \<in> set (unused ! i). \<exists>c. first_column s k = Some c \<and> (l ! i) c = Some (Num 0)) \<and>
         dom (l ! i) = {c. \<exists>k \<in> set (unused ! i). first_column s k = Some c} \<and>
         (\<forall>k \<in> set (used ! i). \<forall>c. first_column s k = Some c \<and>
              (\<forall>k' \<in> set (unused ! i). first_column s k' \<noteq> Some c) \<longrightarrow> c \<notin> dom (l ! i))"
  proof (intro allI impI)
    fix i assume i: "i < length used"
    from el i ll have f: "foldM (pin_unused s) Map.empty (unused ! i) = Inr (l ! i)" by simp
    from foldM_pin_unused [OF f]
    have some: "\<forall>k \<in> set (unused ! i). first_column s k \<noteq> None"
      and val: "\<forall>x. (l ! i) x =
        (if \<exists>k \<in> set (unused ! i). first_column s k = Some x then Some (Num 0) else None)"
      by simp_all
    have dj: "set (used ! i) \<inter> set (unused ! i) = {}"
      by (rule domain_nchoosek_shape(2) [OF d i])
    have p1: "\<forall>k \<in> set (unused ! i). \<exists>c. first_column s k = Some c \<and> (l ! i) c = Some (Num 0)"
    proof
      fix k assume k: "k \<in> set (unused ! i)"
      with some obtain c where c: "first_column s k = Some c" by auto
      with k val have "(l ! i) c = Some (Num 0)" by auto
      with c show "\<exists>c. first_column s k = Some c \<and> (l ! i) c = Some (Num 0)" by blast
    qed
    have p2: "dom (l ! i) = {c. \<exists>k \<in> set (unused ! i). first_column s k = Some c}"
      using val by (auto simp: dom_def)
    have p3: "\<forall>k \<in> set (used ! i). \<forall>c. first_column s k = Some c \<and>
              (\<forall>k' \<in> set (unused ! i). first_column s k' \<noteq> Some c) \<longrightarrow> c \<notin> dom (l ! i)"
      using p2 by auto
    from dj p1 p2 p3
    show "set (used ! i) \<inter> set (unused ! i) = {} \<and>
         (\<forall>k \<in> set (unused ! i). \<exists>c. first_column s k = Some c \<and> (l ! i) c = Some (Num 0)) \<and>
         dom (l ! i) = {c. \<exists>k \<in> set (unused ! i). first_column s k = Some c} \<and>
         (\<forall>k \<in> set (used ! i). \<forall>c. first_column s k = Some c \<and>
              (\<forall>k' \<in> set (unused ! i). first_column s k' \<noteq> Some c) \<longrightarrow> c \<notin> dom (l ! i))"
      by blast
  qed
qed

theorem nchoosek_combinations_pin_unused_witness:
  "get_nchoosek_combinations (ex_strategy FREE [ex_nchoosek]) = Inr [[2 \<mapsto> Num 0], [0 \<mapsto> Num 0]] \<and>
   domain_get_nchoosek_combinations (domain (ex_strategy FREE [ex_nchoosek])) =
     ([[''a''], [''c'']], [[''c''], [''a'']]) \<and>
   first_column (ex_strategy FREE [ex_nchoosek]) ''a'' = Some 0 \<and>
   first_column (ex_strategy FREE [ex_nchoosek]) ''c'' = Some 2 \<and>
   [[2 \<mapsto> Num 0], [(0::nat) \<mapsto> Num (0::real)]] \<noteq> [] \<and>
   0 \<notin> dom ([[2 \<mapsto> Num 0], [(0::nat) \<mapsto> Num (0::real)]] ! 0) \<and>
   get_nchoosek_combinations (ex_strategy FREE []) = Inr [Map.empty]"
proof -
  let ?s = "ex_strategy FREE [ex_nchoosek]"
  let ?l = "[[2 \<mapsto> Num 0], [(0::nat) \<mapsto> Num (0::real)]]"
  let ?used = "[[''a''], [''c'']]"
  let ?unused = "[[''c''], [''a'']]"
  have d: "domain_get_nchoosek_combinations (domain ?s) = (?used, ?unused)"
    by (simp add: ex_defs nchoosek_defs)
  have fa: "first_column ?s ''a'' = Some 0" and fc: "first_column ?s ''c'' = Some 2"
    by (simp_all add: ex_defs first_column_def)
  note t = nchoosek_combinations_pin_unused [of ?s ?l ?used ?unused]
  from t ex_nck have ne: "?l \<noteq> []" by blast
  from t ex_nck d have "\<forall>i < length ?used.
         set (?used ! i) \<inter> set (?unused ! i) = {} \<and>
         (\<forall>k \<in> set (?unused ! i). \<exists>c. first_column ?s k = Some c \<and> (?l ! i) c = Some (Num 0)) \<and>
         dom (?l ! i) = {c. \<exists>k \<in> set (?unused ! i). first_column ?s k = Some c} \<and>
         (\<forall>k \<in> set (?used ! i). \<forall>c. first_column ?s k = Some c \<and>
              (\<forall>k' \<in> set (?unused ! i). first_column ?s k' \<noteq> Some c) \<longrightarrow> c \<notin> dom (?l ! i))"
    by simp
  then have "0 < length ?used \<longrightarrow>
         set (?used ! 0) \<inter> set (?unused ! 0) = {} \<and>
         (\<forall>k \<in> set (?unused ! 0). \<exists>c. first_column ?s k = Some c \<and> (?l ! 0) c = Some (Num 0)) \<and>
         dom (?l ! 0) = {c. \<exists>k \<in> set (?unused ! 0). first_column ?s k = Some c} \<and>
         (\<forall>k \<in> set (?used ! 0). \<forall>c. first_column ?s k = Some c \<and>
              (\<forall>k' \<in> set (?unused ! 0). first_column ?s k' \<noteq> Some c) \<longrightarrow> c \<notin> dom (?l ! 0))"
    by (rule spec)
  then have "\<forall>k \<in> set (?used ! 0). \<forall>c. first_column ?s k = Some c \<and>
              (\<forall>k' \<in> set (?unused ! 0). first_column ?s k' \<noteq> Some c) \<longrightarrow> c \<notin> dom (?l ! 0)"
    by simp
  with fa fc have ab: "0 \<notin> dom (?l ! 0)" by simp
  have e: "get_nchoosek_combinations (ex_strategy FREE []) = Inr [Map.empty]"
    using nchoosek_combinations_pin_unused [of "ex_strategy FREE []"] by (simp add: ex_defs)
  from ex_nck d fa fc ne ab e show ?thesis by blast
qed

section \<open>Composer\<close>

lemma foldM_append_const:
  "foldM (\<lambda>acc x. case Inr ncs of Inl e \<Rightarrow> Inl e | Inr n \<Rightarrow> Inr (acc @ h x n)) acc xs =
     Inr (acc @ concat (map (\<lambda>x. h x ncs) xs))"
  by (induction xs arbitrary: acc) simp_all

lemma nth_concat_uniform:
  assumes "\<forall>x \<in> set xs. length (f x) = n" and "i < length xs" and "j < n"
  shows "concat (map f xs) ! (i * n + j) = f (xs ! i) ! j"
  using assms
proof (induction xs arbitrary: i)
  case Nil
  then show ?case by simp
next
  case (Cons x xs)
  show ?case
  proof (cases i)
    case 0
    with Cons.prems show ?thesis by (simp add: nth_append)
  next
    case (Suc i')
    with Cons.prems have "concat (map f xs) ! (i' * n + j) = f (xs ! i') ! j"
      by (intro Cons.IH) simp_all
    with Suc Cons.prems show ?thesis by (simp add: nth_append)
  qed
qed

lemma length_concat_uniform:
  "\<forall>x \<in> set xs. length (f x) = n \<Longrightarrow> length (concat (map f xs)) = length xs * n"
  by (induction xs) simp_all

text \<open>
  Claim C3. When both enumerators return, \<open>get_fixed_values_list\<close> returns exactly
  \<open>length ccs * length ncs\<close> dictionaries: the element for the i-th categorical
  combination and the j-th n-choose-k dictionary is their merge, in which a key of the
  n-choose-k dictionary takes its value and every other key that of the categorical one.
\<close>

theorem fixed_values_list_is_product:
  assumes "get_categorical_combinations s = Inr ccs"
    and "get_nchoosek_combinations s = Inr ncs"
  shows "\<exists>l. get_fixed_values_list s = Inr l \<and>
           l = concat (map (\<lambda>ff1. map (\<lambda>ff2. ff1 ++ ff2) ncs) ccs) \<and>
           length l = length ccs * length ncs \<and>
           (\<forall>i < length ccs. \<forall>j < length ncs.
              l ! (i * length ncs + j) = (ccs ! i) ++ (ncs ! j) \<and>
              (\<forall>k. (l ! (i * length ncs + j)) k =
                     (case (ncs ! j) k of Some v \<Rightarrow> Some v | None \<Rightarrow> (ccs ! i) k)))"
proof -
  let ?f = "\<lambda>ff1. map (\<lambda>ff2. ff1 ++ ff2) ncs"
  let ?l = "concat (map ?f ccs)"
  have r: "get_fixed_values_list s = Inr ?l"
    using assms foldM_append_const [where ncs = ncs and h = "\<lambda>ff1 n. map (\<lambda>ff2. ff1 ++ ff2) n"
        and acc = "[]" and xs = ccs]
    by (simp add: get_fixed_values_list_def)
  have u: "\<forall>x \<in> set ccs. length (?f x) = length ncs" by simp
  have len: "length ?l = length ccs * length ncs"
    using u by (rule length_concat_uniform)
  have el: "?l ! (i * length ncs + j) = (ccs ! i) ++ (ncs ! j)"
    if "i < length ccs" "j < length ncs" for i j
    using nth_concat_uniform [OF u that] that by simp
  have "\<forall>i < length ccs. \<forall>j < length ncs.
              ?l ! (i * length ncs + j) = (ccs ! i) ++ (ncs ! j) \<and>
              (\<forall>k. (?l ! (i * length ncs + j)) k =
                     (case (ncs ! j) k of Some v \<Rightarrow> Some v | None \<Rightarrow> (ccs ! i) k))"
    using el by (auto simp: map_add_def split: option.splits)
  with r len show ?thesis by blast
qed

theorem fixed_values_list_is_product_witness:
  "\<exists>l. get_fixed_values_list (ex_strategy EXHAUSTIVE [ex_nchoosek]) = Inr l \<and>
       length l = 2 * 2 \<and>
       l ! (1 * 2 + 0) = [1 \<mapsto> Num 3, 3 \<mapsto> Num 0, 4 \<mapsto> Num 1, 5 \<mapsto> Num 0] ++ [2 \<mapsto> Num 0]"
proof -
  let ?s = "ex_strategy EXHAUSTIVE [ex_nchoosek]"
  let ?ccs = "[[1 \<mapsto> Num 3, 3 \<mapsto> Num 1, 4 \<mapsto> Num 0, 5 \<mapsto> Num 0],
               [(1::nat) \<mapsto> Num 3, 3 \<mapsto> Num 0, 4 \<mapsto> Num 1, 5 \<mapsto> Num (0::real)]]"
  let ?ncs = "[[2 \<mapsto> Num 0], [(0::nat) \<mapsto> Num (0::real)]]"
  from fixed_values_list_is_product [OF ex_exh_cc ex_nck]
  obtain l where l: "get_fixed_values_list ?s = Inr l"
    and len: "length l = length ?ccs * length ?ncs"
    and el: "\<forall>i < length ?ccs. \<forall>j < length ?ncs.
               l ! (i * length ?ncs + j) = (?ccs ! i) ++ (?ncs ! j)"
    by blast
  have "1 < length ?ccs" and "0 < length ?ncs" by simp_all
  with el have e: "l ! (1 * length ?ncs + 0) = (?ccs ! 1) ++ (?ncs ! 0)" by blast
  have n: "length ?ncs = 2" and m: "length ?ccs = 2"
    and c: "?ccs ! 1 = [1 \<mapsto> Num 3, 3 \<mapsto> Num 0, 4 \<mapsto> Num 1, 5 \<mapsto> Num 0]"
    and d: "?ncs ! 0 = [2 \<mapsto> Num 0]"
    by simp_all
  from e have "l ! (1 * 2 + 0) =
      [1 \<mapsto> Num 3, 3 \<mapsto> Num 0, 4 \<mapsto> Num 1, 5 \<mapsto> Num 0] ++ [2 \<mapsto> Num 0]"
    unfolding n c d .
  moreover from len have "length l = 2 * 2" unfolding n m .
  ultimately show ?thesis using l by blast
qed

section \<open>Basic lemmas\<close>

lemma get_features_Input [simp]: "get_features fs [Input_cls] None = fs"
proof -
  have "isinstance f Input_cls" for f by (cases f) simp_all
  then show ?thesis by (simp add: get_features_def)
qed

lemma map_sum_id_Inl [simp]: "map_sum id g x = Inl e \<longleftrightarrow> x = Inl e"
  by (cases x) simp_all

lemma map_sum_id_Inr [simp]: "map_sum id g x = Inr y \<longleftrightarrow> (\<exists>z. x = Inr z \<and> y = g z)"
  by (cases x) auto

section \<open>Dispatch of the optimizer\<close>

lemma ex_single_fixed: "get_fixed_features ex_single = Inr [1 \<mapsto> Num 1, 2 \<mapsto> Num 0]"
  by (simp add: ex_single_def resolver_defs)

lemma methods_exhaustive_or_free:
  "\<not> list_all (\<lambda>enc. enc = FREE) [a, b, c] \<Longrightarrow> EXHAUSTIVE \<in> set [a, b, c]"
  by (cases a; cases b; cases c) simp_all

text \<open>
  Claim C2, as amended. For a strategy whose acquisition function is set and a positive
  candidate count, \<^verbatim>\<open>_ask\<close> dispatches in exactly three ways. Without n-choose-k
  constraints it runs the single continuous optimization with the dictionary of
  \<open>get_fixed_features\<close> if and only if the domain has no categorical or discrete
  feature, or its categorical combinations number exactly one, or all three methods are
  FREE; otherwise (some method is then EXHAUSTIVE) it runs the mixed optimizer with the list
  of \<open>get_categorical_combinations\<close>. With n-choose-k constraints it runs the mixed
  optimizer with the list of \<open>get_fixed_values_list\<close>. The three cases are exhaustive:
  the final error branch is never taken.
\<close>

theorem ask_dispatch_three_ways:
  assumes "acqf s" and "0 < n"
  shows "ask_dispatch s (Some n) =
     (if nchoosek (domain s) = []
      then (if length (get_features (inputs (domain s)) [CategoricalInput_cls, DiscreteInput_cls] None) = 0 \<or>
               length (inputs_get_categorical_combinations (inputs (domain s)) [Input_cls] None) = 1 \<or>
               (categorical_method s = FREE \<and> descriptor_method s = FREE \<and> discrete_method s = FREE)
            then map_sum id Optimize_acqf (get_fixed_features s)
            else map_sum id Optimize_acqf_mixed (get_categorical_combinations s))
      else map_sum id Optimize_acqf_mixed (get_fixed_values_list s))"
proof (cases "nchoosek (domain s) = []")
  case True
  show ?thesis
  proof (cases "list_all (\<lambda>enc. enc = FREE) [categorical_method s, descriptor_method s, discrete_method s]")
    case True
    with \<open>nchoosek (domain s) = []\<close> assms show ?thesis
      by (simp add: ask_dispatch_def Let_def)
  next
    case False
    from methods_exhaustive_or_free [OF this]
    have "EXHAUSTIVE \<in> set [categorical_method s, descriptor_method s, discrete_method s]" .
    with False True assms show ?thesis
      by (auto simp: ask_dispatch_def Let_def)
  qed
next
  case False
  with assms show ?thesis
    by (simp add: ask_dispatch_def Let_def)
qed

theorem ask_dispatch_three_ways_witness:
  "ask_dispatch (ex_strategy FREE []) (Some 1) = Inr (Optimize_acqf [1 \<mapsto> Num 3, 5 \<mapsto> Num 0]) \<and>
   ask_dispatch (ex_strategy EXHAUSTIVE []) (Some 1) =
     Inr (Optimize_acqf_mixed
           [[1 \<mapsto> Num 3, 3 \<mapsto> Num 1, 4 \<mapsto> Num 0, 5 \<mapsto> Num 0],
            [1 \<mapsto> Num 3, 3 \<mapsto> Num 0, 4 \<mapsto> Num 1, 5 \<mapsto> Num 0]])"
proof -
  have a: "acqf (ex_strategy m [])" for m by (simp add: ex_strategy_def)
  have n: "length (get_features (inputs (domain (ex_strategy m []))) [CategoricalInput_cls, DiscreteInput_cls] None) = 1"
    "length (inputs_get_categorical_combinations (inputs (domain (ex_strategy m []))) [Input_cls] None) = 2"
    "nchoosek (domain (ex_strategy m [])) = []"
    "categorical_method (ex_strategy m []) = m" for m
    by (simp_all add: ex_defs get_features_def inputs_get_categorical_combinations_def
        enumerated_features_def get_allowed_categories_def)
  have "ask_dispatch (ex_strategy FREE []) (Some 1) = Inr (Optimize_acqf [1 \<mapsto> Num 3, 5 \<mapsto> Num 0])"
    using ask_dispatch_three_ways [OF a, of 1 FREE] n [of FREE]
    by (simp add: ex_free_fixed) (simp add: ex_strategy_def)
  moreover have "ask_dispatch (ex_strategy EXHAUSTIVE []) (Some 1) =
     Inr (Optimize_acqf_mixed
           [[1 \<mapsto> Num 3, 3 \<mapsto> Num 1, 4 \<mapsto> Num 0, 5 \<mapsto> Num 0],
            [1 \<mapsto> Num 3, 3 \<mapsto> Num 0, 4 \<mapsto> Num 1, 5 \<mapsto> Num 0]])"
    using ask_dispatch_three_ways [OF a, of 1 EXHAUSTIVE] n [of EXHAUSTIVE]
    by (simp add: ex_exh_cc)
  ultimately show ?thesis by blast
qed

text \<open>
  The claim as stated fails: a domain with a categorical feature, a method that is
  EXHAUSTIVE and no n-choose-k constraint still gets the single continuous optimization,
  because its only categorical feature has one allowed category and so the categorical
  combinations number one.
\<close>

theorem ask_dispatch_counterexample:
  "acqf ex_single \<and>
   ask_dispatch ex_single (Some 1) = Inr (Optimize_acqf [1 \<mapsto> Num 1, 2 \<mapsto> Num 0]) \<and>
   get_fixed_features ex_single = Inr [1 \<mapsto> Num 1, 2 \<mapsto> Num 0] \<and>
   length (get_features (inputs (domain ex_single)) [CategoricalInput_cls, DiscreteInput_cls] None) = 1 \<and>
   categorical_method ex_single = EXHAUSTIVE \<and>
   nchoosek (domain ex_single) = []"
proof -
  have "length (inputs_get_categorical_combinations (inputs (domain ex_single)) [Input_cls] None) = 1"
    by (simp add: ex_single_def inputs_get_categorical_combinations_def
        enumerated_features_def get_allowed_categories_def)
  then have "ask_dispatch ex_single (Some 1) = Inr (Optimize_acqf [1 \<mapsto> Num 1, 2 \<mapsto> Num 0])"
    by (simp add: ask_dispatch_def Let_def ex_single_fixed) (simp add: ex_single_def)
  moreover have "length (get_features (inputs (domain ex_single)) [CategoricalInput_cls, DiscreteInput_cls] None) = 1"
    by (simp add: ex_single_def get_features_def)
  ultimately show ?thesis
    by (simp add: ex_single_fixed) (simp add: ex_single_def)
qed

section \<open>The variance check of tell\<close>

lemma foldM_error_from_step:
  "foldM f d xs = Inl e \<Longrightarrow> \<exists>d' x. x \<in> set xs \<and> f d' x = Inl e"
proof (induction xs arbitrary: d)
  case Nil
  then show ?case by simp
next
  case (Cons x xs)
  then show ?case by (fastforce split: sum.splits)
qed

lemma pin_columns_error: "pin_columns d cols vs = Inl e \<Longrightarrow> e = IndexError"
  by (induction d cols vs rule: pin_columns.induct) simp_all

lemma pin_where_one_error: "pin_where_one d cols ts = Inl e \<Longrightarrow> e = IndexError"
  by (induction d cols ts rule: pin_where_one.induct) simp_all

lemma pin_degenerate_error: "pin_degenerate d cols lo up = Inl e \<Longrightarrow> e = IndexError"
  by (induction d cols lo up rule: pin_degenerate.induct) simp_all

lemma encoded_as_error: "encoded_as s enc fs = Inl e \<Longrightarrow> \<exists>k. e = KeyError k"
  by (induction fs) (auto simp: lookup_spec_def split: sum.splits option.splits)

lemma encode_category_error:
  "encode_category f t val = Inl e \<Longrightarrow> e \<noteq> no_variance_error"
proof (cases t)
  case None
  then show "encode_category f t val = Inl e \<Longrightarrow> e \<noteq> no_variance_error" by simp
next
  case (Some enc)
  assume a: "encode_category f t val = Inl e"
  show "e \<noteq> no_variance_error"
  proof (cases enc)
    case ONE_HOT with Some a show ?thesis by simp
  next
    case ORDINAL
    with Some a show ?thesis
      by (auto simp: to_ordinal_encoding_def no_variance_error_def split: option.splits)
  next
    case DUMMY with Some a show ?thesis by simp
  next
    case DESCRIPTOR
    with Some a show ?thesis
      by (cases f) (auto simp: no_variance_error_def split: option.splits if_splits)
  qed
qed

lemma fixed_value_error: "fixed_value f t = Inl e \<Longrightarrow> e \<noteq> no_variance_error"
  by (cases f) (auto split: if_splits dest: encode_category_error)

lemma fix_feature_error: "fix_feature s d f = Inl e \<Longrightarrow> e \<noteq> no_variance_error"
  by (auto simp: fix_feature_def lookup_idx_def no_variance_error_def
      split: sum.splits option.splits dest: fixed_value_error pin_columns_error)


lemma fix_forbidden_error: "fix_forbidden s d f = Inl e \<Longrightarrow> e \<noteq> no_variance_error"
proof -
  assume a: "fix_forbidden s d f = Inl e"
  then have "foldM (pin_forbidden_category s f) d (get_forbidden_categories f) = Inl e"
    by (simp add: fix_forbidden_def split: if_splits)
  from foldM_error_from_step [OF this] obtain d' cat
    where "pin_forbidden_category s f d' cat = Inl e" by blast
  then show ?thesis
    by (auto simp: pin_forbidden_category_def lookup_idx_def no_variance_error_def Let_def
        split: option.splits dest: pin_where_one_error)
qed

lemma fix_descriptor_error: "fix_descriptor s d f = Inl e \<Longrightarrow> e \<noteq> no_variance_error"
  by (auto simp: fix_descriptor_def lookup_idx_def no_variance_error_def
      split: if_splits prod.splits option.splits dest: pin_degenerate_error)

lemma get_fixed_features_error:
  assumes "get_fixed_features s = Inl e"
  shows "e \<noteq> no_variance_error"
proof -
  from assms consider
      (a) "foldM (fix_feature s) Map.empty (inputs (domain s)) = Inl e"
    | (b) d where "fix_forbidden_block s d = Inl e"
    | (c) d where "fix_descriptor_block s d = Inl e"
    by (auto simp: get_fixed_features_def split: sum.splits)
  then show ?thesis
  proof cases
    case a
    from foldM_error_from_step [OF this] show ?thesis
      using fix_feature_error by blast
  next
    case b
    then consider
        (b1) fs where "encoded_as s ONE_HOT fs = Inl e"
      | (b2) d' fs where "foldM (fix_forbidden s) d' fs = Inl e"
      by (auto simp: fix_forbidden_block_def split: if_splits sum.splits)
    then show ?thesis
    proof cases
      case b1
      from encoded_as_error [OF this] show ?thesis by (auto simp: no_variance_error_def)
    next
      case b2
      from foldM_error_from_step [OF this] show ?thesis
        using fix_forbidden_error by blast
    qed
  next
    case c
    then consider
        (c1) fs where "encoded_as s DESCRIPTOR fs = Inl e"
      | (c2) d' fs where "foldM (fix_descriptor s) d' fs = Inl e"
      by (auto simp: fix_descriptor_block_def split: if_splits sum.splits)
    then show ?thesis
    proof cases
      case c1
      from encoded_as_error [OF this] show ?thesis by (auto simp: no_variance_error_def)
    next
      case c2
      from foldM_error_from_step [OF this] show ?thesis
        using fix_descriptor_error by blast
    qed
  qed
qed

lemma has_sufficient_experiments_error:
  "has_sufficient_experiments s = Inl e \<Longrightarrow> e \<noteq> no_variance_error"
  by (auto simp: has_sufficient_experiments_def Let_def split: option.splits sum.splits if_splits
      dest: get_fixed_features_error)

lemma fit_error: "fit c s = Inl e \<Longrightarrow> e \<noteq> no_variance_error"
  by (auto simp: fit_def no_variance_error_def split: option.splits if_splits)

lemma accumulate_error:
  "(if replace then set_experiments c s exps else add_experiments c s exps) = Inl e
     \<Longrightarrow> e \<noteq> no_variance_error"
  by (auto simp: set_experiments_def add_experiments_def no_variance_error_def
      split: option.splits if_splits)

lemma check_variance_nontask:
  "\<not> isinstance f TaskInput_cls \<Longrightarrow> check_variance cleaned u f \<noteq> Inl no_variance_error"
  by (auto simp: check_variance_def no_variance_error_def df_column_def
      split: sum.splits option.splits list.splits if_splits
      dest: fixed_value_error [unfolded no_variance_error_def])

lemma variance_loop_never_raises:
  "foldM (check_variance cleaned) () (filter (\<lambda>feat. \<not> isinstance feat TaskInput_cls) fs)
     \<noteq> Inl no_variance_error"
proof
  assume "foldM (check_variance cleaned) () (filter (\<lambda>feat. \<not> isinstance feat TaskInput_cls) fs)
     = Inl no_variance_error"
  from foldM_error_from_step [OF this] obtain u f
    where "f \<in> set (filter (\<lambda>feat. \<not> isinstance feat TaskInput_cls) fs)"
      and "check_variance cleaned u f = Inl no_variance_error" by blast
  then show False using check_variance_nontask by auto
qed

text \<open>
  Claim C9. The error "No variance in experiments for fixed feature" of \<open>tell\<close> is
  unreachable: the loop runs over the fixed features that are no task inputs and raises
  only for a task input, so neither the loop nor \<open>tell\<close> as a whole ever raises it.
\<close>

theorem tell_never_raises_no_variance:
  "foldM (check_variance cleaned) ()
       (filter (\<lambda>feat. \<not> isinstance feat TaskInput_cls) (get_fixed fs)) \<noteq> Inl no_variance_error \<and>
   tell c s exps replace retrain \<noteq> Inl no_variance_error"
proof
  show "foldM (check_variance cleaned) ()
       (filter (\<lambda>feat. \<not> isinstance feat TaskInput_cls) (get_fixed fs)) \<noteq> Inl no_variance_error"
    by (rule variance_loop_never_raises)
next
  show "tell c s exps replace retrain \<noteq> Inl no_variance_error"
  proof
    assume a: "tell c s exps replace retrain = Inl no_variance_error"
    then have ne: "length (rows exps) \<noteq> 0" by (auto simp: tell_def)
    show False
    proof (cases "if replace then set_experiments c s exps else add_experiments c s exps")
      case (Inl e)
      with a ne have "e = no_variance_error" by (simp add: tell_def)
      with accumulate_error [OF Inl] show False by simp
    next
      case (Inr s1)
      let ?loop = "foldM (check_variance (preprocess_experiments_all_valid_outputs c exps)) ()
          (filter (\<lambda>feat. \<not> isinstance feat TaskInput_cls) (get_fixed (inputs (domain s1))))"
      show False
      proof (cases ?loop)
        case (Inl e)
        with a ne Inr have "e = no_variance_error" by (simp add: tell_def Let_def)
        with Inl variance_loop_never_raises show False by blast
      next
        case loop: (Inr u)
        show False
        proof (cases "if retrain then has_sufficient_experiments s1 else Inr False")
          case (Inl e)
          with a ne Inr loop have "e = no_variance_error" by (simp add: tell_def Let_def)
          with Inl has_sufficient_experiments_error show False
            by (auto split: if_splits)
        next
          case suff: (Inr b)
          with a ne Inr loop have "b" and "fit c s1 = Inl no_variance_error"
            by (auto simp: tell_def Let_def split: if_splits bool.splits)
          with fit_error show False by blast
        qed
      qed
    qed
  qed
qed

theorem tell_never_raises_no_variance_witness:
  "check_variance (ex_frame 2) () (ContinuousInput ''b'' 3 3) = Inr () \<and>
   tell ex_collaborators ex_told (ex_frame 2) False True \<noteq> Inl no_variance_error"
proof -
  have "check_variance (ex_frame 2) () (ContinuousInput ''b'' 3 3) = Inr ()"
    by (simp add: check_variance_def df_column_def ex_frame_def)
  with tell_never_raises_no_variance [of "ex_frame 2" "[]" ex_collaborators ex_told "ex_frame 2" False True]
  show ?thesis by blast
qed

section \<open>Sufficient experiments and refitting\<close>











section \<open>Asking without enough experiments\<close>

text \<open>
  The method of the base class does what its docstring announces: for a candidate count of
  the declared type (none, or at least 1), on a strategy without experiments, or with too
  few for \<open>has_sufficient_experiments\<close>, it raises the error "Not enough experiments
  available to execute the strategy", whatever the collaborators would do.
\<close>

lemma Strategy_ask_insufficient_experiments:
  assumes "candidate_count = None \<or> 1 \<le> the candidate_count"
  shows "(experiments s = None \<longrightarrow>
            Strategy_ask c s candidate_count add_pending candidate_pool =
              Inl not_enough_experiments_error) \<and>
         (has_sufficient_experiments s = Inr False \<longrightarrow>
            Strategy_ask c s candidate_count add_pending candidate_pool =
              Inl not_enough_experiments_error)"
proof -
  have g: "\<not> (candidate_count \<noteq> None \<and> the candidate_count < 1)" using assms by auto
  have n: "has_sufficient_experiments s = Inr False" if "experiments s = None"
    using that by (simp add: has_sufficient_experiments_def)
  have "Strategy_ask c s candidate_count add_pending candidate_pool =
          Inl not_enough_experiments_error"
    if "has_sufficient_experiments s = Inr False"
  proof (cases candidate_count)
    case None
    with that show ?thesis by (simp add: Strategy_ask_def)
  next
    case (Some k)
    with g have "\<not> k < 1" by simp
    with Some that show ?thesis by (simp add: Strategy_ask_def)
  qed
  with n show ?thesis by simp
qed

text \<open>
  The method a \<open>BotorchStrategy\<close> inherits never reaches that check: the keyword
  \<^verbatim>\<open>raise_validation_error\<close> names no parameter of \<^verbatim>\<open>Strategy.ask\<close>, so the call of
  \<^verbatim>\<open>super().ask\<close> raises \<^verbatim>\<open>TypeError\<close> for every strategy and every argument.
\<close>

lemma ask_unexpected_keyword:
  "ask c s candidate_count add_pending raise_validation_error = Inl TypeError"
  by (simp add: ask_def bind_keywords_def Strategy_ask_parameters_def)

text \<open>
  Claim C8 fails on the code. On the example strategy, to which no experiments have been
  told, \<open>ask\<close> for one candidate raises \<^verbatim>\<open>TypeError\<close>, not the error "Not enough
  experiments available to execute the strategy" that the method of the base class raises
  on the same strategy and that its docstring announces.
\<close>

theorem ask_insufficient_experiments_raises_type_error:
  "experiments (ex_strategy EXHAUSTIVE []) = None \<and>
   has_sufficient_experiments (ex_strategy EXHAUSTIVE []) = Inr False \<and>
   ask ex_collaborators (ex_strategy EXHAUSTIVE []) (Some 1) False True = Inl TypeError \<and>
   ask ex_collaborators (ex_strategy EXHAUSTIVE []) (Some 1) False True \<noteq>
     Inl not_enough_experiments_error \<and>
   Strategy_ask ex_collaborators (ex_strategy EXHAUSTIVE []) (Some 1) False None =
     Inl not_enough_experiments_error"
proof -
  let ?s = "ex_strategy EXHAUSTIVE []"
  have e: "experiments ?s = None" by (simp add: ex_strategy_def)
  then have h: "has_sufficient_experiments ?s = Inr False"
    by (simp add: has_sufficient_experiments_def)
  have c1: "Some (1::int) = None \<or> 1 \<le> the (Some (1::int))" by simp
  from Strategy_ask_insufficient_experiments [OF c1, of ?s ex_collaborators False None] e
  have b: "Strategy_ask ex_collaborators ?s (Some 1) False None = Inl not_enough_experiments_error"
    by blast
  have a: "ask ex_collaborators ?s (Some 1) False True = Inl TypeError"
    by (rule ask_unexpected_keyword)
  have "Inl TypeError \<noteq> (Inl not_enough_experiments_error :: error + (BotorchStrategy \<times> dataframe))"
    by (simp add: not_enough_experiments_error_def)
  with a have n: "ask ex_collaborators ?s (Some 1) False True \<noteq> Inl not_enough_experiments_error"
    by simp
  from e h a n b show ?thesis by blast
qed

section \<open>What the fixed-feature resolver pins\<close>

lemma foldM_frame:
  assumes "foldM step d xs = Inr d'"
    and "\<And>a x b. x \<in> set xs \<Longrightarrow> step a x = Inr b \<Longrightarrow> \<forall>i. i \<notin> T x \<longrightarrow> b i = a i"
  shows "\<forall>i. i \<notin> (\<Union>x \<in> set xs. T x) \<longrightarrow> d' i = d i"
  using assms
proof (induction xs arbitrary: d)
  case Nil
  then show ?case by simp
next
  case (Cons x xs)
  from Cons.prems(1) obtain d1 where s1: "step d x = Inr d1" and r: "foldM step d1 xs = Inr d'"
    by (cases "step d x") simp_all
  have fr: "\<forall>i. i \<notin> T y \<longrightarrow> b i = a i" if "y \<in> set xs" "step a y = Inr b" for a y b
  proof -
    from that(1) have "y \<in> set (x # xs)" by simp
    from Cons.prems(2) [OF this that(2)] show ?thesis .
  qed
  have t: "\<forall>i. i \<notin> (\<Union>x \<in> set xs. T x) \<longrightarrow> d' i = d1 i"
    using r fr by (rule Cons.IH)
  have "x \<in> set (x # xs)" by simp
  from Cons.prems(2) [OF this s1] have h: "\<forall>i. i \<notin> T x \<longrightarrow> d1 i = d i" .
  show ?case
  proof (intro allI impI)
    fix i assume "i \<notin> (\<Union>x \<in> set (x # xs). T x)"
    then have "i \<notin> T x" and "i \<notin> (\<Union>x \<in> set xs. T x)" by simp_all
    with t h show "d' i = d i" by simp
  qed
qed


lemma foldM_establish:
  assumes "foldM step d xs = Inr d'"
    and "\<And>a x b. x \<in> set xs \<Longrightarrow> step a x = Inr b \<Longrightarrow> \<forall>i. i \<notin> T x \<longrightarrow> b i = a i"
    and "x \<in> set xs"
    and "\<And>a b. step a x = Inr b \<Longrightarrow> b i = v"
    and "\<forall>y \<in> set xs. y \<noteq> x \<longrightarrow> i \<notin> T y"
  shows "d' i = v"
  using assms(1,2,3,5)
proof (induction xs arbitrary: d)
  case Nil
  then show ?case by simp
next
  case (Cons y ys)
  from Cons.prems(1) obtain d1 where s1: "step d y = Inr d1" and r: "foldM step d1 ys = Inr d'"
    by (cases "step d y") simp_all
  have fr: "\<forall>i. i \<notin> T z \<longrightarrow> b i = a i" if "z \<in> set ys" "step a z = Inr b" for a z b
  proof -
    from that(1) have "z \<in> set (y # ys)" by simp
    from Cons.prems(2) [OF this that(2)] show ?thesis .
  qed
  have others: "\<forall>z \<in> set ys. z \<noteq> x \<longrightarrow> i \<notin> T z"
    using Cons.prems(4) by simp
  show ?case
  proof (cases "x \<in> set ys")
    case True
    from r fr True others show ?thesis by (rule Cons.IH)
  next
    case False
    with Cons.prems(3) have xy: "y = x" by simp
    with s1 have v: "d1 i = v" using assms(4) by simp
    have "i \<notin> (\<Union>z \<in> set ys. T z)"
      using others False by auto
    moreover have "\<forall>i. i \<notin> (\<Union>z \<in> set ys. T z) \<longrightarrow> d' i = d1 i"
      by (rule foldM_frame [where T = T, OF r]) (rule fr)
    ultimately have "d' i = d1 i" by blast
    with v show ?thesis by simp
  qed
qed

lemma pin_columns_Inr:
  "pin_columns d cols vs = Inr d' \<Longrightarrow>
     length cols \<le> length vs \<and> (\<forall>i. i \<notin> set cols \<longrightarrow> d' i = d i) \<and>
     (distinct cols \<longrightarrow> (\<forall>j < length cols. d' (cols ! j) = Some (vs ! j)))"
proof (induction d cols vs rule: pin_columns.induct)
  case (1 d vs)
  then show ?case by simp
next
  case (2 d idx idxs)
  then show ?case by simp
next
  case (3 d idx idxs v vs)
  from "3.prems" have r: "pin_columns (d(idx \<mapsto> v)) idxs vs = Inr d'" by simp
  note IH = "3.IH" [OF r]
  show ?case
  proof (intro conjI allI impI)
    show "length (idx # idxs) \<le> length (v # vs)" using IH by simp
  next
    fix i assume "i \<notin> set (idx # idxs)"
    then show "d' i = d i" using IH by simp
  next
    fix j assume dist: "distinct (idx # idxs)" and j: "j < length (idx # idxs)"
    show "d' ((idx # idxs) ! j) = Some ((v # vs) ! j)"
    proof (cases j)
      case 0
      from dist have "idx \<notin> set idxs" by simp
      with IH have "d' idx = (d(idx \<mapsto> v)) idx" by blast
      with 0 show ?thesis by simp
    next
      case (Suc j')
      with j dist IH show ?thesis by simp
    qed
  qed
qed

lemma pin_where_one_Inr:
  "pin_where_one d cols ts = Inr d' \<Longrightarrow>
     length cols \<le> length ts \<and>
     (\<forall>i. d' i = (if \<exists>j < length cols. cols ! j = i \<and> ts ! j = 1 then Some (Num 0) else d i))"
proof (induction d cols ts rule: pin_where_one.induct)
  case (1 d ts)
  then show ?case by simp
next
  case (2 d idx idxs)
  then show ?case by simp
next
  case (3 d idx idxs t ts)
  let ?d1 = "if t = 1 then d(idx \<mapsto> Num 0) else d"
  from "3.prems" have r: "pin_where_one ?d1 idxs ts = Inr d'" by simp
  note IH = "3.IH" [OF r]
  have ex: "(\<exists>j < length (idx # idxs). (idx # idxs) ! j = i \<and> (t # ts) ! j = 1) \<longleftrightarrow>
            (idx = i \<and> t = 1) \<or> (\<exists>j < length idxs. idxs ! j = i \<and> ts ! j = 1)" for i
  proof
    assume "\<exists>j < length (idx # idxs). (idx # idxs) ! j = i \<and> (t # ts) ! j = 1"
    then obtain j where j: "j < length (idx # idxs)" "(idx # idxs) ! j = i" "(t # ts) ! j = 1"
      by blast
    then show "(idx = i \<and> t = 1) \<or> (\<exists>j < length idxs. idxs ! j = i \<and> ts ! j = 1)"
      by (cases j) auto
  next
    assume "(idx = i \<and> t = 1) \<or> (\<exists>j < length idxs. idxs ! j = i \<and> ts ! j = 1)"
    then show "\<exists>j < length (idx # idxs). (idx # idxs) ! j = i \<and> (t # ts) ! j = 1"
    proof
      assume "idx = i \<and> t = 1"
      then have "0 < length (idx # idxs) \<and> (idx # idxs) ! 0 = i \<and> (t # ts) ! 0 = 1" by simp
      then show ?thesis by blast
    next
      assume "\<exists>j < length idxs. idxs ! j = i \<and> ts ! j = 1"
      then obtain j where "j < length idxs" "idxs ! j = i" "ts ! j = 1" by blast
      then have "Suc j < length (idx # idxs) \<and> (idx # idxs) ! Suc j = i \<and> (t # ts) ! Suc j = 1"
        by simp
      then show ?thesis by blast
    qed
  qed
  show ?case
  proof (intro conjI allI)
    show "length (idx # idxs) \<le> length (t # ts)" using IH by simp
  next
    fix i
    from IH have "d' i = (if \<exists>j < length idxs. idxs ! j = i \<and> ts ! j = 1 then Some (Num 0) else ?d1 i)"
      by blast
    then show "d' i = (if \<exists>j < length (idx # idxs). (idx # idxs) ! j = i \<and> (t # ts) ! j = 1
                       then Some (Num 0) else d i)"
      unfolding ex by auto
  qed
qed

lemma pin_degenerate_frame:
  "pin_degenerate d cols lo up = Inr d' \<Longrightarrow> \<forall>i. i \<notin> set cols \<longrightarrow> d' i = d i"
  by (induction d cols lo up rule: pin_degenerate.induct) auto

lemma lookup_idx_columns_of: "lookup_idx s (key_of f) = Inr cols \<Longrightarrow> columns_of s f = cols"
  by (auto simp: lookup_idx_def columns_of_def split: option.splits)

lemma encoded_as_Inr:
  "encoded_as s enc fs = Inr r \<Longrightarrow>
     r = filter (\<lambda>f. map_of (input_preprocessing_specs s) (key_of f) = Some enc) fs"
proof (induction fs arbitrary: r)
  case Nil
  then show ?case by simp
next
  case (Cons f fs)
  then show ?case
    by (auto simp: lookup_spec_def split: sum.splits option.splits)
qed

lemma foldM_steps_succeed:
  "foldM step d xs = Inr d' \<Longrightarrow> x \<in> set xs \<Longrightarrow> \<exists>a b. step a x = Inr b"
proof (induction xs arbitrary: d)
  case Nil
  then show ?case by simp
next
  case (Cons y ys)
  from Cons.prems(1) obtain d1 where s1: "step d y = Inr d1" and r: "foldM step d1 ys = Inr d'"
    by (cases "step d y") simp_all
  show ?case
  proof (cases "x = y")
    case True
    with s1 show ?thesis by blast
  next
    case False
    with Cons.prems(2) have "x \<in> set ys" by simp
    with r show ?thesis by (rule Cons.IH)
  qed
qed

lemma fixed_value_None_iff: "fixed_value f t = Inr None \<longleftrightarrow> \<not> is_fixed f"
  by (cases f) (auto split: if_splits)

lemma fix_feature_not_fixed: "\<not> is_fixed f \<Longrightarrow> fix_feature s d f = Inr d"
  by (simp add: fix_feature_def fixed_value_None_iff [THEN iffD2])

lemma fix_feature_fixed:
  assumes "fix_feature s d f = Inr d'" and "is_fixed f"
  shows "\<exists>vs. fixed_value f (map_of (input_preprocessing_specs s) (key_of f)) = Inr (Some vs) \<and>
              pin_columns d (columns_of s f) vs = Inr d'"
proof -
  from assms(2) have n: "fixed_value f None \<noteq> Inr None"
    by (simp add: fixed_value_None_iff)
  from assms(1) n obtain vs cols
    where v: "fixed_value f (map_of (input_preprocessing_specs s) (key_of f)) = Inr (Some vs)"
      and c: "lookup_idx s (key_of f) = Inr cols" and p: "pin_columns d cols vs = Inr d'"
    by (auto simp: fix_feature_def split: sum.splits option.splits)
  from lookup_idx_columns_of [OF c] p v show ?thesis by simp
qed

lemma fix_feature_frame:
  assumes "fix_feature s d f = Inr d'"
  shows "\<forall>i. i \<notin> (if is_fixed f then set (columns_of s f) else {}) \<longrightarrow> d' i = d i"
proof (cases "is_fixed f")
  case True
  from fix_feature_fixed [OF assms True] obtain vs
    where "pin_columns d (columns_of s f) vs = Inr d'" by blast
  from pin_columns_Inr [OF this] True show ?thesis by simp
next
  case False
  with assms fix_feature_not_fixed [OF False, of s d] show ?thesis by simp
qed

lemma forbidden_loop:
  "foldM (pin_forbidden_category s f) d cats = Inr d' \<Longrightarrow>
     (\<forall>i. d' i = (if \<exists>cat \<in> set cats. \<exists>j < length (columns_of s f).
                        columns_of s f ! j = i \<and> to_onehot_encoding f (Str cat) ! j = 1
                   then Some (Num 0) else d i))"
proof (induction cats arbitrary: d)
  case Nil
  then show ?case by simp
next
  case (Cons cat cats)
  from Cons.prems obtain d1 where s1: "pin_forbidden_category s f d cat = Inr d1"
    and r: "foldM (pin_forbidden_category s f) d1 cats = Inr d'"
    by (cases "pin_forbidden_category s f d cat") simp_all
  from s1 obtain cols where c: "lookup_idx s (key_of f) = Inr cols"
    and p: "pin_where_one d cols (to_onehot_encoding f (Str cat)) = Inr d1"
    by (auto simp: pin_forbidden_category_def Let_def split: sum.splits)
  from lookup_idx_columns_of [OF c] have cc: "columns_of s f = cols" .
  from pin_where_one_Inr [OF p] cc
  have one: "\<forall>i. d1 i = (if \<exists>j < length (columns_of s f).
                        columns_of s f ! j = i \<and> to_onehot_encoding f (Str cat) ! j = 1
                   then Some (Num 0) else d i)" by simp
  from Cons.IH [OF r]
  have rest: "\<forall>i. d' i = (if \<exists>cat \<in> set cats. \<exists>j < length (columns_of s f).
                        columns_of s f ! j = i \<and> to_onehot_encoding f (Str cat) ! j = 1
                   then Some (Num 0) else d1 i)" .
  show ?case
  proof
    fix i
    from one have o: "d1 i = (if \<exists>j < length (columns_of s f).
                        columns_of s f ! j = i \<and> to_onehot_encoding f (Str cat) ! j = 1
                   then Some (Num 0) else d i)" ..
    from rest have q: "d' i = (if \<exists>cat \<in> set cats. \<exists>j < length (columns_of s f).
                        columns_of s f ! j = i \<and> to_onehot_encoding f (Str cat) ! j = 1
                   then Some (Num 0) else d1 i)" ..
    show "d' i = (if \<exists>c \<in> set (cat # cats). \<exists>j < length (columns_of s f).
                        columns_of s f ! j = i \<and> to_onehot_encoding f (Str c) ! j = 1
                   then Some (Num 0) else d i)"
      unfolding q o by auto
  qed
qed

lemma forbidden_category_mem:
  assumes "j < length (categories f)" and "j < length (allowed f)" and "\<not> allowed f ! j"
  shows "categories f ! j \<in> set (get_forbidden_categories f)"
proof -
  from assms(1,2) have "(categories f ! j, allowed f ! j) \<in> set (zip (categories f) (allowed f))"
    by (metis in_set_zip fst_conv snd_conv)
  with assms(3) show ?thesis
    by (force simp: get_forbidden_categories_def)
qed

lemma onehot_at: "j < length (categories f) \<Longrightarrow> to_onehot_encoding f (Str (categories f ! j)) ! j = 1"
  by (simp add: to_onehot_encoding_def)

lemma fix_forbidden_frame:
  assumes "fix_forbidden s d f = Inr d'"
  shows "\<forall>i. i \<notin> (if is_fixed f then {} else set (columns_of s f)) \<longrightarrow> d' i = d i"
proof (cases "is_fixed f")
  case True
  with assms show ?thesis by (simp add: fix_forbidden_def)
next
  case False
  with assms have "foldM (pin_forbidden_category s f) d (get_forbidden_categories f) = Inr d'"
    by (simp add: fix_forbidden_def)
  from forbidden_loop [OF this] False show ?thesis by auto
qed

lemma fix_forbidden_pins:
  assumes "fix_forbidden s d f = Inr d'" and "\<not> is_fixed f"
    and "j < length (columns_of s f)" and "j < length (categories f)"
    and "j < length (allowed f)" and "\<not> allowed f ! j"
  shows "d' (columns_of s f ! j) = Some (Num 0)"
proof -
  from assms(1,2) have "foldM (pin_forbidden_category s f) d (get_forbidden_categories f) = Inr d'"
    by (simp add: fix_forbidden_def)
  note l = forbidden_loop [OF this, rule_format, of "columns_of s f ! j"]
  have "\<exists>cat \<in> set (get_forbidden_categories f). \<exists>j' < length (columns_of s f).
          columns_of s f ! j' = columns_of s f ! j \<and> to_onehot_encoding f (Str cat) ! j' = 1"
    using forbidden_category_mem [OF assms(4,5,6)] onehot_at [OF assms(4)] assms(3) by blast
  with l show ?thesis by simp
qed

lemma fix_descriptor_frame:
  assumes "fix_descriptor s d f = Inr d'"
  shows "\<forall>i. i \<notin> (if is_fixed f then {} else set (columns_of s f)) \<longrightarrow> d' i = d i"
proof (cases "is_fixed f")
  case True
  with assms show ?thesis by (simp add: fix_descriptor_def)
next
  case False
  with assms obtain cols lower upper where c: "lookup_idx s (key_of f) = Inr cols"
    and p: "pin_degenerate d cols lower upper = Inr d'"
    by (auto simp: fix_descriptor_def split: prod.splits sum.splits)
  from pin_degenerate_frame [OF p] lookup_idx_columns_of [OF c] False show ?thesis by simp
qed

lemma layout_disjointD:
  assumes "layout_disjoint s" and "f \<in> set (inputs (domain s))" and "g \<in> set (inputs (domain s))"
    and "f \<noteq> g" and "i \<in> set (columns_of s f)"
  shows "i \<notin> set (columns_of s g)"
  using assms unfolding layout_disjoint_def by blast

lemma layout_distinctD:
  "layout_disjoint s \<Longrightarrow> f \<in> set (inputs (domain s)) \<Longrightarrow> distinct (columns_of s f)"
  unfolding layout_disjoint_def by blast

lemma fix_forbidden_block_frame:
  assumes "fix_forbidden_block s d = Inr d'"
    and "\<forall>g \<in> set (inputs (domain s)).
           map_of (input_preprocessing_specs s) (key_of g) = Some ONE_HOT \<and> \<not> is_fixed g
             \<longrightarrow> i \<notin> set (columns_of s g)"
  shows "d' i = d i"
proof (cases "categorical_method s = FREE \<and> ONE_HOT \<in> set (map snd (input_preprocessing_specs s))")
  case False
  with assms(1) show ?thesis by (auto simp: fix_forbidden_block_def)
next
  case True
  let ?T = "\<lambda>g. if is_fixed g then {} else set (columns_of s g)"
  from True assms(1) obtain feats
    where e: "encoded_as s ONE_HOT (get_features (inputs (domain s)) [CategoricalInput_cls] None) = Inr feats"
      and l: "foldM (fix_forbidden s) d feats = Inr d'"
    by (auto simp: fix_forbidden_block_def split: sum.splits)
  have fr: "\<forall>i. i \<notin> ?T x \<longrightarrow> b i = a i" if "x \<in> set feats" "fix_forbidden s a x = Inr b" for a x b
    using that(2) by (rule fix_forbidden_frame)
  have all: "\<forall>i. i \<notin> (\<Union>g \<in> set feats. ?T g) \<longrightarrow> d' i = d i"
    by (rule foldM_frame [where T = ?T, OF l]) (rule fr)
  have "i \<notin> (\<Union>g \<in> set feats. ?T g)"
  proof
    assume "i \<in> (\<Union>g \<in> set feats. ?T g)"
    then obtain g where g: "g \<in> set feats" "\<not> is_fixed g" "i \<in> set (columns_of s g)"
      by (auto split: if_splits)
    from g(1) encoded_as_Inr [OF e]
    have "g \<in> set (inputs (domain s))"
      "map_of (input_preprocessing_specs s) (key_of g) = Some ONE_HOT"
      by (auto simp: get_features_def)
    with assms(2) g(2,3) show False by blast
  qed
  with all show ?thesis by blast
qed

lemma fix_descriptor_block_frame:
  assumes "fix_descriptor_block s d = Inr d'"
    and "\<forall>g \<in> set (inputs (domain s)).
           map_of (input_preprocessing_specs s) (key_of g) = Some DESCRIPTOR \<and> \<not> is_fixed g
             \<longrightarrow> i \<notin> set (columns_of s g)"
  shows "d' i = d i"
proof (cases "descriptor_method s = FREE \<and> DESCRIPTOR \<in> set (map snd (input_preprocessing_specs s))")
  case False
  with assms(1) show ?thesis by (auto simp: fix_descriptor_block_def)
next
  case True
  let ?T = "\<lambda>g. if is_fixed g then {} else set (columns_of s g)"
  from True assms(1) obtain feats
    where e: "encoded_as s DESCRIPTOR
                (get_features (inputs (domain s)) [CategoricalDescriptorInput_cls] None) = Inr feats"
      and l: "foldM (fix_descriptor s) d feats = Inr d'"
    by (auto simp: fix_descriptor_block_def split: sum.splits)
  have fr: "\<forall>i. i \<notin> ?T x \<longrightarrow> b i = a i" if "x \<in> set feats" "fix_descriptor s a x = Inr b" for a x b
    using that(2) by (rule fix_descriptor_frame)
  have all: "\<forall>i. i \<notin> (\<Union>g \<in> set feats. ?T g) \<longrightarrow> d' i = d i"
    by (rule foldM_frame [where T = ?T, OF l]) (rule fr)
  have "i \<notin> (\<Union>g \<in> set feats. ?T g)"
  proof
    assume "i \<in> (\<Union>g \<in> set feats. ?T g)"
    then obtain g where g: "g \<in> set feats" "\<not> is_fixed g" "i \<in> set (columns_of s g)"
      by (auto split: if_splits)
    from g(1) encoded_as_Inr [OF e]
    have "g \<in> set (inputs (domain s))"
      "map_of (input_preprocessing_specs s) (key_of g) = Some DESCRIPTOR"
      by (auto simp: get_features_def)
    with assms(2) g(2,3) show False by blast
  qed
  with all show ?thesis by blast
qed

lemma fix_forbidden_block_pins:
  assumes "fix_forbidden_block s d = Inr d'" and "categorical_method s = FREE"
    and "layout_disjoint s" and "f \<in> set (inputs (domain s))"
    and "isinstance f CategoricalInput_cls"
    and "map_of (input_preprocessing_specs s) (key_of f) = Some ONE_HOT" and "\<not> is_fixed f"
    and "j < length (columns_of s f)" and "j < length (categories f)"
    and "j < length (allowed f)" and "\<not> allowed f ! j"
  shows "d' (columns_of s f ! j) = Some (Num 0)"
proof -
  let ?T = "\<lambda>g. if is_fixed g then {} else set (columns_of s g)"
  let ?i = "columns_of s f ! j"
  from assms(6) have "(key_of f, ONE_HOT) \<in> set (input_preprocessing_specs s)"
    by (rule map_of_SomeD)
  then have "ONE_HOT \<in> set (map snd (input_preprocessing_specs s))" by force
  with assms(1,2) obtain feats
    where e: "encoded_as s ONE_HOT (get_features (inputs (domain s)) [CategoricalInput_cls] None) = Inr feats"
      and l: "foldM (fix_forbidden s) d feats = Inr d'"
    by (auto simp: fix_forbidden_block_def split: sum.splits)
  from encoded_as_Inr [OF e] assms(4,5,6) have mem: "f \<in> set feats"
    by (simp add: get_features_def)
  have sub: "g \<in> set (inputs (domain s))" if "g \<in> set feats" for g
    using that encoded_as_Inr [OF e] by (auto simp: get_features_def)
  have fr: "\<forall>i. i \<notin> ?T x \<longrightarrow> b i = a i" if "x \<in> set feats" "fix_forbidden s a x = Inr b" for a x b
    using that(2) by (rule fix_forbidden_frame)
  have est: "b ?i = Some (Num 0)" if "fix_forbidden s a f = Inr b" for a b
    using that assms(7,8,9,10,11) by (rule fix_forbidden_pins)
  have oth: "\<forall>y \<in> set feats. y \<noteq> f \<longrightarrow> ?i \<notin> ?T y"
  proof (intro ballI impI)
    fix y assume y: "y \<in> set feats" "y \<noteq> f"
    have "?i \<in> set (columns_of s f)" using assms(8) by simp
    from layout_disjointD [OF assms(3) assms(4) sub [OF y(1)] y(2) [symmetric] this]
    show "?i \<notin> ?T y" by simp
  qed
  show ?thesis
    by (rule foldM_establish [where T = ?T and x = f, OF l]) (rule fr, assumption+, rule mem, rule est, assumption, rule oth)
qed

lemma fix_loop_pins:
  assumes l: "foldM (fix_feature s) d0 (inputs (domain s)) = Inr d1"
    and ld: "layout_disjoint s" and f: "f \<in> set (inputs (domain s))" and fx: "is_fixed f"
  shows "\<exists>vs. fixed_value f (map_of (input_preprocessing_specs s) (key_of f)) = Inr (Some vs) \<and>
              length (columns_of s f) \<le> length vs \<and>
              (\<forall>j < length (columns_of s f). d1 (columns_of s f ! j) = Some (vs ! j))"
proof -
  let ?T = "\<lambda>g. if is_fixed g then set (columns_of s g) else {}"
  from foldM_steps_succeed [OF l f] obtain a b where ab: "fix_feature s a f = Inr b" by blast
  from fix_feature_fixed [OF ab fx] obtain vs
    where v: "fixed_value f (map_of (input_preprocessing_specs s) (key_of f)) = Inr (Some vs)"
      and p: "pin_columns a (columns_of s f) vs = Inr b" by blast
  from pin_columns_Inr [OF p] have len: "length (columns_of s f) \<le> length vs" by simp
  have dist: "distinct (columns_of s f)" using ld f by (rule layout_distinctD)
  have fr: "\<forall>i. i \<notin> ?T x \<longrightarrow> b i = a i"
    if "x \<in> set (inputs (domain s))" "fix_feature s a x = Inr b" for a x b
    using that(2) by (rule fix_feature_frame)
  have pins: "d1 (columns_of s f ! j) = Some (vs ! j)" if j: "j < length (columns_of s f)" for j
  proof -
    let ?i = "columns_of s f ! j"
    have est: "b ?i = Some (vs ! j)" if "fix_feature s a f = Inr b" for a b
    proof -
      from fix_feature_fixed [OF that fx] v have "pin_columns a (columns_of s f) vs = Inr b"
        by simp
      from pin_columns_Inr [OF this] dist j show ?thesis by simp
    qed
    have oth: "\<forall>y \<in> set (inputs (domain s)). y \<noteq> f \<longrightarrow> ?i \<notin> ?T y"
    proof (intro ballI impI)
      fix y assume y: "y \<in> set (inputs (domain s))" "y \<noteq> f"
      have "?i \<in> set (columns_of s f)" using j by simp
      from layout_disjointD [OF ld f y(1) y(2) [symmetric] this]
      show "?i \<notin> ?T y" by simp
    qed
    show ?thesis
      by (rule foldM_establish [where T = ?T and x = f, OF l])
         (rule fr, assumption+, rule f, rule est, assumption, rule oth)
  qed
  from v len pins show ?thesis by blast
qed

lemma fixed_features_of_fixed:
  assumes r: "get_fixed_features s = Inr d" and ld: "layout_disjoint s"
    and f: "f \<in> set (inputs (domain s))" and fx: "is_fixed f"
  shows "\<exists>vs. fixed_value f (map_of (input_preprocessing_specs s) (key_of f)) = Inr (Some vs) \<and>
              length (columns_of s f) \<le> length vs \<and>
              (\<forall>j < length (columns_of s f). d (columns_of s f ! j) = Some (vs ! j))"
proof -
  from r obtain d1 d2
    where l1: "foldM (fix_feature s) Map.empty (inputs (domain s)) = Inr d1"
      and l2: "fix_forbidden_block s d1 = Inr d2" and l3: "fix_descriptor_block s d2 = Inr d"
    by (auto simp: get_fixed_features_def split: sum.splits)
  from fix_loop_pins [OF l1 ld f fx] obtain vs
    where v: "fixed_value f (map_of (input_preprocessing_specs s) (key_of f)) = Inr (Some vs)"
      and len: "length (columns_of s f) \<le> length vs"
      and p1: "\<forall>j < length (columns_of s f). d1 (columns_of s f ! j) = Some (vs ! j)"
    by blast
  have keep: "d (columns_of s f ! j) = d1 (columns_of s f ! j)" if j: "j < length (columns_of s f)" for j
  proof -
    let ?i = "columns_of s f ! j"
    have mem: "?i \<in> set (columns_of s f)" using j by simp
    have free: "?i \<notin> set (columns_of s g)" if "g \<in> set (inputs (domain s))" "\<not> is_fixed g" for g
    proof -
      from that(2) fx have "f \<noteq> g" by blast
      from layout_disjointD [OF ld f that(1) this mem] show ?thesis .
    qed
    have "d2 ?i = d1 ?i"
      by (rule fix_forbidden_block_frame [OF l2]) (use free in blast)
    moreover have "d ?i = d2 ?i"
      by (rule fix_descriptor_block_frame [OF l3]) (use free in blast)
    ultimately show ?thesis by simp
  qed
  from v len p1 keep show ?thesis by auto
qed

lemma fixed_features_forbidden:
  assumes r: "get_fixed_features s = Inr d" and ld: "layout_disjoint s"
    and cm: "categorical_method s = FREE"
    and f: "f \<in> set (inputs (domain s))" and ci: "isinstance f CategoricalInput_cls"
    and oh: "map_of (input_preprocessing_specs s) (key_of f) = Some ONE_HOT"
    and nf: "\<not> is_fixed f"
    and j: "j < length (columns_of s f)" "j < length (categories f)" "j < length (allowed f)"
    and na: "\<not> allowed f ! j"
  shows "d (columns_of s f ! j) = Some (Num 0)"
proof -
  from r obtain d1 d2
    where l1: "foldM (fix_feature s) Map.empty (inputs (domain s)) = Inr d1"
      and l2: "fix_forbidden_block s d1 = Inr d2" and l3: "fix_descriptor_block s d2 = Inr d"
    by (auto simp: get_fixed_features_def split: sum.splits)
  let ?i = "columns_of s f ! j"
  have p2: "d2 ?i = Some (Num 0)"
    using l2 cm ld f ci oh nf j na by (rule fix_forbidden_block_pins)
  have mem: "?i \<in> set (columns_of s f)" using j(1) by simp
  have "?i \<notin> set (columns_of s g)"
    if "g \<in> set (inputs (domain s))" "map_of (input_preprocessing_specs s) (key_of g) = Some DESCRIPTOR" for g
  proof -
    from that(2) oh have "f \<noteq> g" by auto
    from layout_disjointD [OF ld f that(1) this mem] show ?thesis .
  qed
  then have "d ?i = d2 ?i"
    by (intro fix_descriptor_block_frame [OF l3]) blast
  with p2 show ?thesis by simp
qed

text \<open>
  Claim C6. Let \<open>get_fixed_features\<close> return the dictionary \<open>d\<close> for a strategy with a
  disjoint layout. Every column of every fixed feature is pinned to the feature's encoded
  fixed value; a continuous feature with lower = upper = v has its column pinned to v; a
  one-hot encoded categorical feature with exactly one allowed category has the column of
  that category pinned to 1 and the columns of the other categories pinned to 0; and when
  the categorical method is FREE, every column of a forbidden category of a non-fixed
  one-hot encoded categorical feature is pinned to 0.
\<close>

theorem fixed_features_pin_fixed_and_forbidden:
  assumes "get_fixed_features s = Inr d" and "layout_disjoint s"
  shows "(\<forall>f \<in> set (inputs (domain s)). is_fixed f \<longrightarrow>
            (\<exists>vs. fixed_value f (map_of (input_preprocessing_specs s) (key_of f)) = Inr (Some vs) \<and>
                  length (columns_of s f) \<le> length vs \<and>
                  (\<forall>j < length (columns_of s f). d (columns_of s f ! j) = Some (vs ! j)))) \<and>
         (\<forall>k v. ContinuousInput k v v \<in> set (inputs (domain s)) \<longrightarrow>
            (\<forall>c \<in> set (columns_of s (ContinuousInput k v v)). d c = Some (Num v))) \<and>
         (\<forall>f \<in> set (inputs (domain s)). \<forall>c.
            isinstance f CategoricalInput_cls \<and> get_allowed_categories f = [c] \<and>
            map_of (input_preprocessing_specs s) (key_of f) = Some ONE_HOT \<longrightarrow>
              length (columns_of s f) \<le> length (categories f) \<and>
              (\<forall>j < length (columns_of s f).
                 d (columns_of s f ! j) = Some (Num (if categories f ! j = c then 1 else 0)))) \<and>
         (categorical_method s = FREE \<longrightarrow>
            (\<forall>f \<in> set (inputs (domain s)).
               isinstance f CategoricalInput_cls \<and> \<not> is_fixed f \<and>
               map_of (input_preprocessing_specs s) (key_of f) = Some ONE_HOT \<longrightarrow>
                 (\<forall>j. j < length (columns_of s f) \<and> j < length (categories f) \<and>
                      j < length (allowed f) \<and> \<not> allowed f ! j \<longrightarrow>
                        d (columns_of s f ! j) = Some (Num 0))))"
proof (intro conjI)
  show "\<forall>f \<in> set (inputs (domain s)). is_fixed f \<longrightarrow>
            (\<exists>vs. fixed_value f (map_of (input_preprocessing_specs s) (key_of f)) = Inr (Some vs) \<and>
                  length (columns_of s f) \<le> length vs \<and>
                  (\<forall>j < length (columns_of s f). d (columns_of s f ! j) = Some (vs ! j)))"
    using fixed_features_of_fixed [OF assms] by blast
next
  show "\<forall>k v. ContinuousInput k v v \<in> set (inputs (domain s)) \<longrightarrow>
            (\<forall>c \<in> set (columns_of s (ContinuousInput k v v)). d c = Some (Num v))"
  proof (intro allI impI ballI)
    fix k v c
    let ?f = "ContinuousInput k v v"
    assume f: "?f \<in> set (inputs (domain s))" and c: "c \<in> set (columns_of s ?f)"
    have "is_fixed ?f" by simp
    from fixed_features_of_fixed [OF assms f this] obtain vs
      where v: "fixed_value ?f (map_of (input_preprocessing_specs s) (key_of ?f)) = Inr (Some vs)"
        and len: "length (columns_of s ?f) \<le> length vs"
        and p: "\<forall>j < length (columns_of s ?f). d (columns_of s ?f ! j) = Some (vs ! j)"
      by blast
    from v have vs: "vs = [Num v]" by simp
    from c obtain j where j: "j < length (columns_of s ?f)" "columns_of s ?f ! j = c"
      by (auto simp: in_set_conv_nth)
    with len vs have "j = 0" by simp
    with p j vs show "d c = Some (Num v)" by auto
  qed
next
  show "\<forall>f \<in> set (inputs (domain s)). \<forall>c.
            isinstance f CategoricalInput_cls \<and> get_allowed_categories f = [c] \<and>
            map_of (input_preprocessing_specs s) (key_of f) = Some ONE_HOT \<longrightarrow>
              length (columns_of s f) \<le> length (categories f) \<and>
              (\<forall>j < length (columns_of s f).
                 d (columns_of s f ! j) = Some (Num (if categories f ! j = c then 1 else 0)))"
  proof (intro allI impI ballI)
    fix f c
    assume f: "f \<in> set (inputs (domain s))"
      and h: "isinstance f CategoricalInput_cls \<and> get_allowed_categories f = [c] \<and>
              map_of (input_preprocessing_specs s) (key_of f) = Some ONE_HOT"
    from h have fx: "is_fixed f" by (cases f) simp_all
    from fixed_features_of_fixed [OF assms f fx] obtain vs
      where v: "fixed_value f (map_of (input_preprocessing_specs s) (key_of f)) = Inr (Some vs)"
        and len: "length (columns_of s f) \<le> length vs"
        and p: "\<forall>j < length (columns_of s f). d (columns_of s f ! j) = Some (vs ! j)"
      by blast
    from v h fx have vs: "vs = map Num (to_onehot_encoding f (Str c))"
      by (cases f) simp_all
    then have lv: "length vs = length (categories f)" by (simp add: to_onehot_encoding_def)
    have "d (columns_of s f ! j) = Some (Num (if categories f ! j = c then 1 else 0))"
      if "j < length (columns_of s f)" for j
    proof -
      from that len lv have "j < length (categories f)" by simp
      then have "vs ! j = Num (if categories f ! j = c then 1 else 0)"
        by (simp add: vs to_onehot_encoding_def)
      with p that show ?thesis by simp
    qed
    with len lv show "length (columns_of s f) \<le> length (categories f) \<and>
              (\<forall>j < length (columns_of s f).
                 d (columns_of s f ! j) = Some (Num (if categories f ! j = c then 1 else 0)))"
      by simp
  qed
next
  show "categorical_method s = FREE \<longrightarrow>
            (\<forall>f \<in> set (inputs (domain s)).
               isinstance f CategoricalInput_cls \<and> \<not> is_fixed f \<and>
               map_of (input_preprocessing_specs s) (key_of f) = Some ONE_HOT \<longrightarrow>
                 (\<forall>j. j < length (columns_of s f) \<and> j < length (categories f) \<and>
                      j < length (allowed f) \<and> \<not> allowed f ! j \<longrightarrow>
                        d (columns_of s f ! j) = Some (Num 0)))"
    using fixed_features_forbidden [OF assms] by blast
qed

lemma ex_layout_disjoint: "layout_disjoint (ex_strategy m cs)"
  by (simp add: layout_disjoint_def ex_defs columns_of_def)

lemma ex_single_layout_disjoint: "layout_disjoint ex_single"
  by (simp add: layout_disjoint_def ex_single_def columns_of_def)

theorem fixed_features_pin_fixed_and_forbidden_witness:
  "get_fixed_features (ex_strategy FREE []) = Inr [1 \<mapsto> Num 3, 5 \<mapsto> Num 0] \<and>
   layout_disjoint (ex_strategy FREE []) \<and>
   [(1::nat) \<mapsto> Num 3, 5 \<mapsto> Num 0] 1 = Some (Num 3) \<and>
   [(1::nat) \<mapsto> Num 3, 5 \<mapsto> Num 0] 5 = Some (Num 0) \<and>
   get_fixed_features ex_single = Inr [1 \<mapsto> Num 1, 2 \<mapsto> Num 0] \<and>
   layout_disjoint ex_single \<and>
   [(1::nat) \<mapsto> Num 1, 2 \<mapsto> Num 0] 1 = Some (Num 1) \<and>
   [(1::nat) \<mapsto> Num 1, 2 \<mapsto> Num 0] 2 = Some (Num 0)"
proof -
  let ?s = "ex_strategy FREE []"
  let ?d = "[(1::nat) \<mapsto> Num 3, 5 \<mapsto> Num 0]"
  let ?b = "ContinuousInput ''b'' 3 3"
  let ?f = "CategoricalInput ''d'' [''x'', ''y'', ''z''] [True, True, False]"
  note t = fixed_features_pin_fixed_and_forbidden [OF ex_free_fixed ex_layout_disjoint, of "[]"]
  have bm: "?b \<in> set (inputs (domain ?s))" and fm: "?f \<in> set (inputs (domain ?s))"
    by (simp_all add: ex_defs)
  have cb: "columns_of ?s ?b = [1]" and cf: "columns_of ?s ?f = [3, 4, 5]"
    by (simp_all add: ex_defs columns_of_def)
  from t bm have "\<forall>c \<in> set (columns_of ?s ?b). ?d c = Some (Num 3)" by blast
  then have w1: "?d 1 = Some (Num 3)" unfolding cb by simp
  have m: "categorical_method ?s = FREE" by (simp add: ex_strategy_def)
  have pre: "isinstance ?f CategoricalInput_cls \<and> \<not> is_fixed ?f \<and>
      map_of (input_preprocessing_specs ?s) (key_of ?f) = Some ONE_HOT"
    by (simp add: ex_defs get_allowed_categories_def)
  have j: "2 < length (columns_of ?s ?f) \<and> 2 < length (categories ?f) \<and>
      2 < length (allowed ?f) \<and> \<not> allowed ?f ! 2"
    unfolding cf by simp
  from t m fm pre have "\<forall>j. j < length (columns_of ?s ?f) \<and> j < length (categories ?f) \<and>
      j < length (allowed ?f) \<and> \<not> allowed ?f ! j \<longrightarrow> ?d (columns_of ?s ?f ! j) = Some (Num 0)"
    by blast
  with j have "?d (columns_of ?s ?f ! 2) = Some (Num 0)" by blast
  then have w2: "?d 5 = Some (Num 0)" unfolding cf by simp
  let ?e = "[(1::nat) \<mapsto> Num 1, 2 \<mapsto> Num 0]"
  let ?g = "CategoricalInput ''d'' [''x'', ''y''] [True, False]"
  note u = fixed_features_pin_fixed_and_forbidden [OF ex_single_fixed ex_single_layout_disjoint]
  have gm: "?g \<in> set (inputs (domain ex_single))" by (simp add: ex_single_def)
  have cg: "columns_of ex_single ?g = [1, 2]" by (simp add: ex_single_def columns_of_def)
  have pg: "isinstance ?g CategoricalInput_cls \<and> get_allowed_categories ?g = [''x''] \<and>
      map_of (input_preprocessing_specs ex_single) (key_of ?g) = Some ONE_HOT"
    by (simp add: ex_single_def get_allowed_categories_def)
  from u gm pg have "\<forall>j < length (columns_of ex_single ?g).
      ?e (columns_of ex_single ?g ! j) = Some (Num (if categories ?g ! j = ''x'' then 1 else 0))"
    by blast
  then have "?e (columns_of ex_single ?g ! 0) = Some (Num (if categories ?g ! 0 = ''x'' then 1 else 0))"
    and "?e (columns_of ex_single ?g ! 1) = Some (Num (if categories ?g ! 1 = ''x'' then 1 else 0))"
    unfolding cg by simp_all
  then have w3: "?e 1 = Some (Num 1)" and w4: "?e 2 = Some (Num 0)"
    unfolding cg by simp_all
  from ex_free_fixed [of "[]"] ex_layout_disjoint [of FREE "[]"] w1 w2
    ex_single_fixed ex_single_layout_disjoint w3 w4
  show ?thesis by blast
qed

section \<open>Enumeration of descriptor features\<close>

lemma ex_desc_fixed: "get_fixed_features (ex_desc cm dm) = Inr Map.empty"
  by (cases cm; cases dm) (simp_all add: ex_desc_def resolver_defs column_min_def column_max_def)

lemma ex_desc_combos_both:
  "combos_of (ex_desc EXHAUSTIVE EXHAUSTIVE) =
     [[(''e'', Str ''p''), (''d'', Str ''x'')], [(''e'', Str ''p''), (''d'', Str ''y'')],
      [(''e'', Str ''q''), (''d'', Str ''x'')], [(''e'', Str ''q''), (''d'', Str ''y'')]]"
  by (simp add: combos_of_def ex_desc_def enumerator_defs get_features_def get_allowed_categories_def)

lemma ex_desc_combos_cat:
  "combos_of (ex_desc EXHAUSTIVE FREE) = [[(''d'', Str ''x'')], [(''d'', Str ''y'')]]"
  by (simp add: combos_of_def ex_desc_def enumerator_defs get_features_def get_allowed_categories_def)

lemma get_categorical_combinations_eq:
  "get_categorical_combinations s =
     (case get_fixed_features s of
        Inl e \<Rightarrow> Inl e
      | Inr fixed_basis \<Rightarrow>
          if descriptor_method s = FREE \<and> discrete_method s = FREE \<and> categorical_method s = FREE
          then Inr [Map.empty]
          else if length (combos_of s) = 1 then Inr [fixed_basis]
          else mapM (apply_combo s fixed_basis) (combos_of s))"
  by (cases "get_fixed_features s"; cases "include_exclude s")
     (auto simp: get_categorical_combinations_def combos_of_def Let_def)

lemma ex_desc_cc_both:
  "get_categorical_combinations (ex_desc EXHAUSTIVE EXHAUSTIVE) =
     Inr [[1 \<mapsto> Num 1, 2 \<mapsto> Num 2, 3 \<mapsto> Num 1, 4 \<mapsto> Num 0],
          [1 \<mapsto> Num 1, 2 \<mapsto> Num 2, 3 \<mapsto> Num 0, 4 \<mapsto> Num 1],
          [1 \<mapsto> Num 3, 2 \<mapsto> Num 7, 3 \<mapsto> Num 1, 4 \<mapsto> Num 0],
          [1 \<mapsto> Num 3, 2 \<mapsto> Num 7, 3 \<mapsto> Num 0, 4 \<mapsto> Num 1]]"
  by (simp add: get_categorical_combinations_eq ex_desc_fixed ex_desc_combos_both)
     (simp add: ex_desc_def apply_combo_def apply_pair_def get_feature_def lookup_idx_def
        lookup_spec_def to_onehot_encoding_def)

lemma ex_desc_cc_cat:
  "get_categorical_combinations (ex_desc EXHAUSTIVE FREE) =
     Inr [[3 \<mapsto> Num 1, 4 \<mapsto> Num 0], [3 \<mapsto> Num 0, 4 \<mapsto> Num 1]]"
  by (simp add: get_categorical_combinations_eq ex_desc_fixed ex_desc_combos_cat)
     (simp add: ex_desc_def apply_combo_def apply_pair_def get_feature_def lookup_idx_def
        lookup_spec_def to_onehot_encoding_def)

lemma include_exclude_categorical_only:
  assumes "categorical_method s = EXHAUSTIVE" and "descriptor_method s \<noteq> EXHAUSTIVE"
  shows "snd (include_exclude s) = Some CategoricalDescriptorInput_cls"
    and "CategoricalInput_cls \<in> set (fst (include_exclude s))"
    and "CategoricalDescriptorInput_cls \<notin> set (fst (include_exclude s))"
  using assms by (simp_all add: include_exclude_def Let_def)

lemma include_exclude_both:
  assumes "categorical_method s = EXHAUSTIVE" and "descriptor_method s = EXHAUSTIVE"
  shows "snd (include_exclude s) = None"
    and "CategoricalInput_cls \<in> set (fst (include_exclude s))"
    and "CategoricalDescriptorInput_cls \<in> set (fst (include_exclude s))"
  using assms by (simp_all add: include_exclude_def Let_def)

lemma enumerated_subset: "set (enumerated s) \<subseteq> set (inputs (domain s))"
  by (auto simp: enumerated_def enumerated_features_def get_features_def split: prod.splits)

lemma enumerated_distinct:
  "distinct (map key_of (inputs (domain s))) \<Longrightarrow> distinct (map key_of (enumerated s))"
  by (auto simp: enumerated_def enumerated_features_def get_features_def distinct_map_filter
      split: prod.splits)

lemma enumerated_excluded:
  assumes "snd (include_exclude s) = Some c" and "f \<in> set (enumerated s)"
  shows "\<not> isinstance f c"
proof -
  obtain inc exc where ie: "include_exclude s = (inc, exc)" by (cases "include_exclude s")
  with assms(1) have "exc = Some c" by simp
  with assms(2) ie show ?thesis
    by (simp add: enumerated_def enumerated_features_def get_features_def)
qed

lemma descriptor_feature_has_options:
  "isinstance f CategoricalDescriptorInput_cls \<Longrightarrow> feature_options f \<noteq> None"
  by (cases f) simp_all

lemma enumerated_descriptor_features:
  assumes "snd (include_exclude s) = None"
    and "CategoricalDescriptorInput_cls \<in> set (fst (include_exclude s))"
  shows "filter (\<lambda>f. isinstance f CategoricalDescriptorInput_cls) (enumerated s) =
         filter (\<lambda>f. isinstance f CategoricalDescriptorInput_cls) (inputs (domain s))"
proof -
  obtain inc exc where ie: "include_exclude s = (inc, exc)" by (cases "include_exclude s")
  with assms have exc: "exc = None" and inc: "CategoricalDescriptorInput_cls \<in> set inc" by simp_all
  then have ne: "inc \<noteq> []" by auto
  show ?thesis
    unfolding enumerated_def ie enumerated_features_def get_features_def
    using exc inc ne descriptor_feature_has_options
    by (auto intro!: filter_cong)
qed

lemma combos_of_eq:
  "combos_of s = product_lists (map (\<lambda>f. the (feature_options f)) (enumerated s))"
  by (simp add: combos_of_def enumerated_def inputs_get_categorical_combinations_def
      split: prod.splits)

lemma feature_options_fst:
  "feature_options f = Some os \<Longrightarrow> x \<in> set os \<Longrightarrow> fst x = key_of f"
  by (cases f) auto

lemma enumerated_has_options: "f \<in> set (enumerated s) \<Longrightarrow> \<exists>os. feature_options f = Some os"
  by (auto simp: enumerated_def enumerated_features_def split: prod.splits)

lemma list_all2_keys:
  assumes "list_all2 (\<lambda>x ys. x \<in> set ys) combo (map g E)"
    and "\<And>f x. f \<in> set E \<Longrightarrow> x \<in> set (g f) \<Longrightarrow> fst x = h f"
  shows "map fst combo = map h E"
  using assms
proof (induction E arbitrary: combo)
  case Nil
  then show ?case by simp
next
  case (Cons f E)
  from Cons.prems(1) obtain x rest where c: "combo = x # rest" and x: "x \<in> set (g f)"
    and r: "list_all2 (\<lambda>x ys. x \<in> set ys) rest (map g E)"
    by (auto simp: list_all2_Cons2)
  have "map fst rest = map h E"
    using r by (rule Cons.IH) (rule Cons.prems(2), simp_all)
  moreover have "fst x = h f" by (rule Cons.prems(2) [OF _ x]) simp
  ultimately show ?case using c by simp
qed

lemma combo_structure:
  assumes "combo \<in> set (combos_of s)"
  shows "list_all2 (\<lambda>x ys. x \<in> set ys) combo (map (\<lambda>f. the (feature_options f)) (enumerated s))"
  using assms by (simp add: combos_of_eq product_lists_set)

lemma combo_keys:
  assumes "combo \<in> set (combos_of s)"
  shows "map fst combo = map key_of (enumerated s)"
proof (rule list_all2_keys [OF combo_structure [OF assms]])
  fix f x assume f: "f \<in> set (enumerated s)" and x: "x \<in> set (the (feature_options f))"
  from enumerated_has_options [OF f] obtain os where "feature_options f = Some os" ..
  with x feature_options_fst show "fst x = key_of f" by fastforce
qed

lemma key_of_inj:
  assumes "distinct (map key_of fs)" and "f \<in> set fs" and "g \<in> set fs" and "key_of f = key_of g"
  shows "f = g"
  using assms by (meson distinct_map inj_onD)

lemma combo_pair_from_feature:
  assumes co: "combo \<in> set (combos_of s)" and dk: "distinct (map key_of (inputs (domain s)))"
    and f: "f \<in> set (inputs (domain s))" and p: "(key_of f, v) \<in> set combo"
  shows "f \<in> set (enumerated s) \<and> (key_of f, v) \<in> set (the (feature_options f))"
proof -
  let ?E = "enumerated s"
  from p obtain n where n: "n < length combo" "combo ! n = (key_of f, v)"
    by (auto simp: in_set_conv_nth)
  from combo_structure [OF co]
  have la: "list_all2 (\<lambda>x ys. x \<in> set ys) combo (map (\<lambda>f. the (feature_options f)) ?E)" .
  then have len: "length combo = length ?E" by (auto dest: list_all2_lengthD)
  from la n(1) have "combo ! n \<in> set (map (\<lambda>f. the (feature_options f)) ?E ! n)"
    by (rule list_all2_nthD)
  with n len have m: "(key_of f, v) \<in> set (the (feature_options (?E ! n)))" by simp
  from n(1) len have en: "?E ! n \<in> set ?E" by simp
  from enumerated_has_options [OF en] obtain os where os: "feature_options (?E ! n) = Some os" ..
  with m feature_options_fst have "key_of f = key_of (?E ! n)" by fastforce
  moreover from en enumerated_subset have "?E ! n \<in> set (inputs (domain s))" by blast
  ultimately have "f = ?E ! n" using dk f by (intro key_of_inj)
  with en m show ?thesis by simp
qed

lemma find_by_key:
  assumes "distinct (map key_of fs)" and "f \<in> set fs"
  shows "find (\<lambda>g. key_of g = key_of f) fs = Some f"
  using assms
proof (induction fs)
  case Nil
  then show ?case by simp
next
  case (Cons a fs)
  show ?case
  proof (cases "a = f")
    case True
    then show ?thesis by simp
  next
    case False
    with Cons.prems have m: "f \<in> set fs" by simp
    with Cons.prems(1) have "key_of a \<noteq> key_of f" by force
    moreover from Cons.prems(1) m have "find (\<lambda>g. key_of g = key_of f) fs = Some f"
      by (intro Cons.IH) simp_all
    ultimately show ?thesis by simp
  qed
qed

lemma get_feature_Inr:
  "get_feature fs k = Inr g \<Longrightarrow> g \<in> set fs \<and> key_of g = k"
  by (auto simp: get_feature_def find_Some_iff split: option.splits)

lemma get_feature_by_key:
  "distinct (map key_of fs) \<Longrightarrow> f \<in> set fs \<Longrightarrow> get_feature fs (key_of f) = Inr f"
  by (simp add: get_feature_def find_by_key)

lemma index_of_map_Str: "index_of (map Str cs) (Str c) = index_of cs c"
  by (induction cs) simp_all

lemma apply_pair_frame:
  assumes "apply_pair s a p = Inr b"
  shows "\<forall>i. i \<notin> (case get_feature (inputs (domain s)) (fst p) of
                     Inl e \<Rightarrow> {} | Inr g \<Rightarrow> set (columns_of s g)) \<longrightarrow> b i = a i"
proof -
  obtain k v where p: "p = (k, v)" by (cases p)
  from assms p obtain g where g: "get_feature (inputs (domain s)) k = Inr g"
    by (cases "get_feature (inputs (domain s)) k") (simp_all add: apply_pair_def)
  from get_feature_Inr [OF g] have kg: "key_of g = k" by simp
  let ?D = "if isinstance g CategoricalDescriptorInput_cls
            then map_sum id (\<lambda>e. e = DESCRIPTOR) (lookup_spec s k) else Inr False"
  from assms p g obtain t where t: "?D = Inr t"
    by (cases ?D) (simp_all add: apply_pair_def)
  have out: "b i = a i" if i: "i \<notin> set (columns_of s g)" for i
  proof (cases "lookup_idx s k")
    case (Inl e)
    show ?thesis
    proof (cases t)
      case True
      with assms p g t Inl show ?thesis
        by (cases "index_of (map Str (categories g)) v") (simp_all add: apply_pair_def)
    next
      case False
      with assms p g t Inl show ?thesis
        by (simp add: apply_pair_def Let_def split: if_splits)
    qed
  next
    case (Inr cols)
    with kg lookup_idx_columns_of [of s g cols] have cc: "columns_of s g = cols" by simp
    show ?thesis
    proof (cases t)
      case True
      with assms p g t Inr obtain index
        where ix: "index_of (map Str (categories g)) v = Some index"
        by (cases "index_of (map Str (categories g)) v") (simp_all add: apply_pair_def)
      show ?thesis
      proof (cases cols)
        case Nil
        with assms p g t Inr True ix have "b = a" by (simp add: apply_pair_def)
        then show ?thesis by simp
      next
        case (Cons x xs)
        with assms p g t Inr True ix
        have "pin_columns a cols (map Num (descriptor_values g ! index)) = Inr b"
          by (simp add: apply_pair_def split: if_splits)
        from pin_columns_Inr [OF this] i cc show ?thesis by simp
      qed
    next
      case False
      show ?thesis
      proof (cases "isinstance g CategoricalInput_cls")
        case True
        with assms p g t Inr False
        have "pin_columns a cols (map Num (to_onehot_encoding g v)) = Inr b"
          by (simp add: apply_pair_def Let_def)
        from pin_columns_Inr [OF this] i cc show ?thesis by simp
      next
        case nc: False
        show ?thesis
        proof (cases "isinstance g DiscreteInput_cls")
          case True
          with assms p g t Inr False nc
          have r: "(case cols of [] \<Rightarrow> Inl IndexError | c # cs \<Rightarrow> Inr (a(c \<mapsto> v))) = Inr b"
            by (simp add: apply_pair_def)
          then obtain c cs where "cols = c # cs" "b = a(c \<mapsto> v)"
            by (cases cols) auto
          with i cc show ?thesis by simp
        next
          case False
          with assms p g t Inr \<open>\<not> t\<close> nc have "b = a" by (simp add: apply_pair_def)
          then show ?thesis by simp
        qed
      qed
    qed
  qed
  with p g show ?thesis by simp
qed

lemma apply_pair_descriptor:
  assumes ap: "apply_pair s a (key_of f, Str c) = Inr b"
    and gf: "get_feature (inputs (domain s)) (key_of f) = Inr f"
    and cd: "isinstance f CategoricalDescriptorInput_cls"
    and sp: "map_of (input_preprocessing_specs s) (key_of f) = Some DESCRIPTOR"
    and dc: "distinct (columns_of s f)"
  shows "\<exists>idx. index_of (categories f) c = Some idx \<and>
           (\<forall>j < length (columns_of s f).
              b (columns_of s f ! j) = Some (Num (descriptor_values f ! idx ! j)))"
proof -
  from sp have ls: "lookup_spec s (key_of f) = Inr DESCRIPTOR" by (simp add: lookup_spec_def)
  from ap gf cd ls obtain idx where idx: "index_of (categories f) c = Some idx"
    by (cases "index_of (categories f) c") (simp_all add: apply_pair_def index_of_map_Str)
  from ap gf cd ls idx obtain cols where lc: "lookup_idx s (key_of f) = Inr cols"
    by (cases "lookup_idx s (key_of f)") (simp_all add: apply_pair_def index_of_map_Str)
  from lookup_idx_columns_of [OF lc] have cc: "columns_of s f = cols" .
  have "b (cols ! j) = Some (Num (descriptor_values f ! idx ! j))" if j: "j < length cols" for j
  proof -
    from j obtain x xs where ne: "cols = x # xs" by (cases cols) simp_all
    with ap gf cd ls idx lc
    have pc: "pin_columns a cols (map Num (descriptor_values f ! idx)) = Inr b"
      by (simp add: apply_pair_def index_of_map_Str split: if_splits)
    from pin_columns_Inr [OF pc] dc cc j
    have "length cols \<le> length (descriptor_values f ! idx)"
      and "b (cols ! j) = Some (map Num (descriptor_values f ! idx) ! j)" by simp_all
    with j show ?thesis by simp
  qed
  with idx cc show ?thesis by blast
qed

lemma apply_combo_descriptor:
  assumes ac: "apply_combo s basis combo = Inr d" and co: "combo \<in> set (combos_of s)"
    and ld: "layout_disjoint s" and dk: "distinct (map key_of (inputs (domain s)))"
    and f: "f \<in> set (inputs (domain s))"
    and cd: "isinstance f CategoricalDescriptorInput_cls"
    and sp: "map_of (input_preprocessing_specs s) (key_of f) = Some DESCRIPTOR"
    and p: "(key_of f, Str c) \<in> set combo"
  shows "\<exists>idx. index_of (categories f) c = Some idx \<and>
           (\<forall>j < length (columns_of s f).
              d (columns_of s f ! j) = Some (Num (descriptor_values f ! idx ! j)))"
proof -
  let ?T = "\<lambda>p. case get_feature (inputs (domain s)) (fst p) of
                   Inl e \<Rightarrow> {} | Inr g \<Rightarrow> set (columns_of s g)"
  let ?x = "(key_of f, Str c)"
  from ac have l: "foldM (apply_pair s) basis combo = Inr d" by (simp add: apply_combo_def)
  have gf: "get_feature (inputs (domain s)) (key_of f) = Inr f"
    using dk f by (rule get_feature_by_key)
  have dc: "distinct (columns_of s f)" using ld f by (rule layout_distinctD)
  from foldM_steps_succeed [OF l p] obtain a b where "apply_pair s a ?x = Inr b" by blast
  from apply_pair_descriptor [OF this gf cd sp dc] obtain idx
    where idx: "index_of (categories f) c = Some idx" by blast
  have fr: "\<forall>i. i \<notin> ?T y \<longrightarrow> b i = a i" if "y \<in> set combo" "apply_pair s a y = Inr b" for a y b
    using that(2) by (rule apply_pair_frame)
  have dfst: "distinct (map fst combo)"
    using combo_keys [OF co] enumerated_distinct [OF dk] by simp
  have pins: "d (columns_of s f ! j) = Some (Num (descriptor_values f ! idx ! j))"
    if j: "j < length (columns_of s f)" for j
  proof -
    let ?i = "columns_of s f ! j"
    have mem: "?i \<in> set (columns_of s f)" using j by simp
    have est: "b ?i = Some (Num (descriptor_values f ! idx ! j))"
      if "apply_pair s a ?x = Inr b" for a b
      using apply_pair_descriptor [OF that gf cd sp dc] idx j by auto
    have oth: "\<forall>y \<in> set combo. y \<noteq> ?x \<longrightarrow> ?i \<notin> ?T y"
    proof (intro ballI impI)
      fix y assume y: "y \<in> set combo" "y \<noteq> ?x"
      from dfst have "inj_on fst (set combo)" by (simp add: distinct_map)
      with y p have ky: "fst y \<noteq> key_of f" by (metis inj_onD fst_conv)
      show "?i \<notin> ?T y"
      proof (cases "get_feature (inputs (domain s)) (fst y)")
        case (Inl e)
        then show ?thesis by simp
      next
        case (Inr g)
        from get_feature_Inr [OF Inr] ky have g: "g \<in> set (inputs (domain s))" and "f \<noteq> g"
          by auto
        from layout_disjointD [OF ld f g \<open>f \<noteq> g\<close> mem] Inr show ?thesis by simp
      qed
    qed
    show ?thesis
      by (rule foldM_establish [where T = ?T and x = ?x, OF l])
         (rule fr, assumption+, rule p, rule est, assumption, rule oth)
  qed
  with idx show ?thesis by blast
qed

lemma foldr_mult_one:
  fixes ns :: "nat list"
  shows "foldr (*) ns 1 = 1 \<Longrightarrow> n \<in> set ns \<Longrightarrow> n = 1"
  by (induction ns) auto

lemma single_combo_single_options:
  assumes "length (combos_of s) = 1" and "f \<in> set (enumerated s)"
  shows "length (the (feature_options f)) = 1"
proof -
  from assms(1) have "foldr (*) (map length (map (\<lambda>f. the (feature_options f)) (enumerated s))) 1 = 1"
    by (simp add: combos_of_eq length_product_lists)
  moreover from assms(2)
  have "length (the (feature_options f)) \<in>
          set (map length (map (\<lambda>f. the (feature_options f)) (enumerated s)))"
    by auto
  ultimately show ?thesis by (rule foldr_mult_one)
qed

lemma degenerate_descriptor:
  assumes one: "length (combos_of s) = 1" and co: "combo \<in> set (combos_of s)"
    and gb: "get_fixed_features s = Inr basis"
    and ld: "layout_disjoint s" and dk: "distinct (map key_of (inputs (domain s)))"
    and f: "f \<in> set (inputs (domain s))"
    and cd: "isinstance f CategoricalDescriptorInput_cls"
    and sp: "map_of (input_preprocessing_specs s) (key_of f) = Some DESCRIPTOR"
    and p: "(key_of f, Str c) \<in> set combo"
  shows "\<exists>idx. index_of (categories f) c = Some idx \<and>
           (\<forall>j < length (columns_of s f).
              basis (columns_of s f ! j) = Some (Num (descriptor_values f ! idx ! j)))"
proof -
  from cd obtain k cs al ds where ff: "f = CategoricalDescriptorInput k cs al ds"
    by (cases f) simp_all
  from combo_pair_from_feature [OF co dk f p]
  have en: "f \<in> set (enumerated s)" and m: "(key_of f, Str c) \<in> set (the (feature_options f))"
    by simp_all
  from single_combo_single_options [OF one en] ff
  have l1: "length (get_allowed_categories f) = 1" by simp
  from m ff have "c \<in> set (get_allowed_categories f)" by auto
  with l1 have ac: "get_allowed_categories f = [c]"
    by (cases "get_allowed_categories f") auto
  with ff have fx: "is_fixed f" by simp
  from fixed_features_of_fixed [OF gb ld f fx] sp obtain vs
    where v: "fixed_value f (Some DESCRIPTOR) = Inr (Some vs)"
      and len: "length (columns_of s f) \<le> length vs"
      and pin: "\<forall>j < length (columns_of s f). basis (columns_of s f ! j) = Some (vs ! j)"
    by auto
  from v ff ac fx obtain idx where idx: "index_of cs c = Some idx"
    and vs: "vs = map Num (ds ! idx)"
    by (auto split: option.splits if_splits)
  have "basis (columns_of s f ! j) = Some (Num (descriptor_values f ! idx ! j))"
    if j: "j < length (columns_of s f)" for j
  proof -
    from j len vs have "j < length (ds ! idx)" by simp
    with pin j vs ff show ?thesis by simp
  qed
  with idx ff show ?thesis by auto
qed

lemma apply_combo_leaves_unenumerated:
  assumes ac: "apply_combo s basis combo = Inr d" and co: "combo \<in> set (combos_of s)"
    and ld: "layout_disjoint s" and dk: "distinct (map key_of (inputs (domain s)))"
    and f: "f \<in> set (inputs (domain s))" and nf: "f \<notin> set (enumerated s)"
    and col: "i \<in> set (columns_of s f)"
  shows "d i = basis i"
proof -
  let ?T = "\<lambda>p. case get_feature (inputs (domain s)) (fst p) of
                   Inl e \<Rightarrow> {} | Inr g \<Rightarrow> set (columns_of s g)"
  from ac have l: "foldM (apply_pair s) basis combo = Inr d" by (simp add: apply_combo_def)
  have fr: "\<forall>i. i \<notin> ?T y \<longrightarrow> b i = a i" if "y \<in> set combo" "apply_pair s a y = Inr b" for a y b
    using that(2) by (rule apply_pair_frame)
  have all: "\<forall>i. i \<notin> (\<Union>y \<in> set combo. ?T y) \<longrightarrow> d i = basis i"
    by (rule foldM_frame [where T = ?T, OF l]) (rule fr)
  have "i \<notin> (\<Union>y \<in> set combo. ?T y)"
  proof
    assume "i \<in> (\<Union>y \<in> set combo. ?T y)"
    then obtain y where y: "y \<in> set combo" and iy: "i \<in> ?T y" by blast
    then obtain g where g: "get_feature (inputs (domain s)) (fst y) = Inr g"
      and ig: "i \<in> set (columns_of s g)"
      by (cases "get_feature (inputs (domain s)) (fst y)") auto
    from get_feature_Inr [OF g] have gm: "g \<in> set (inputs (domain s))" and kg: "key_of g = fst y"
      by simp_all
    from y kg have "(key_of g, snd y) \<in> set combo" by simp
    from combo_pair_from_feature [OF co dk gm this] have "g \<in> set (enumerated s)" by simp
    with nf have "f \<noteq> g" by auto
    from layout_disjointD [OF ld f gm this col] ig show False by simp
  qed
  with all show ?thesis by blast
qed

lemma enumerated_categorical_only:
  assumes "categorical_method s = EXHAUSTIVE" and "descriptor_method s \<noteq> EXHAUSTIVE"
  shows "enumerated s =
     filter (\<lambda>f. (isinstance f CategoricalInput_cls \<or>
                   discrete_method s = EXHAUSTIVE \<and> isinstance f DiscreteInput_cls) \<and>
                 \<not> isinstance f CategoricalDescriptorInput_cls) (inputs (domain s))"
proof -
  have o: "feature_options f \<noteq> None"
    if "isinstance f CategoricalInput_cls \<or> isinstance f DiscreteInput_cls" for f
    using that by (cases f) simp_all
  from assms show ?thesis
    unfolding enumerated_def include_exclude_def enumerated_features_def get_features_def
    using o by (cases "discrete_method s") (auto simp: Let_def intro!: filter_cong)
qed

lemma combinations_length:
  assumes "get_categorical_combinations s = Inr l"
    and "categorical_method s = EXHAUSTIVE"
  shows "length l = length (combos_of s)"
proof -
  from assms obtain basis where gb: "get_fixed_features s = Inr basis"
    and r: "(if length (combos_of s) = 1 then Inr [basis]
             else mapM (apply_combo s basis) (combos_of s)) = Inr l"
    by (cases "get_fixed_features s") (simp_all add: get_categorical_combinations_eq)
  show ?thesis
  proof (cases "length (combos_of s) = 1")
    case True
    with r show ?thesis by auto
  next
    case False
    with r have "mapM (apply_combo s basis) (combos_of s) = Inr l" by simp
    from mapM_Inr [OF this] show ?thesis by simp
  qed
qed

lemma combinations_leave_unenumerated:
  assumes gc: "get_categorical_combinations s = Inr l"
    and cm: "categorical_method s = EXHAUSTIVE"
    and ld: "layout_disjoint s" and dk: "distinct (map key_of (inputs (domain s)))"
  shows "\<exists>basis. get_fixed_features s = Inr basis \<and>
           (\<forall>n < length l. \<forall>f \<in> set (inputs (domain s)). f \<notin> set (enumerated s) \<longrightarrow>
              (\<forall>i \<in> set (columns_of s f). (l ! n) i = basis i))"
proof -
  from gc cm obtain basis where gb: "get_fixed_features s = Inr basis"
    and r: "(if length (combos_of s) = 1 then Inr [basis]
             else mapM (apply_combo s basis) (combos_of s)) = Inr l"
    by (cases "get_fixed_features s") (simp_all add: get_categorical_combinations_eq)
  have "(l ! n) i = basis i"
    if n: "n < length l" and f: "f \<in> set (inputs (domain s))" and nf: "f \<notin> set (enumerated s)"
      and i: "i \<in> set (columns_of s f)" for n f i
  proof (cases "length (combos_of s) = 1")
    case True
    with r n show ?thesis by auto
  next
    case False
    with r have m: "mapM (apply_combo s basis) (combos_of s) = Inr l" by simp
    from mapM_Inr [OF m] n
    have nn: "n < length (combos_of s)" and "apply_combo s basis (combos_of s ! n) = Inr (l ! n)"
      by simp_all
    from apply_combo_leaves_unenumerated [OF this(2) _ ld dk f nf i] nn show ?thesis by simp
  qed
  with gb show ?thesis by blast
qed

text \<open>
  Claim C5. Let \<open>get_categorical_combinations\<close> return the list \<open>l\<close> for a strategy
  with a disjoint layout and unique feature keys. When the categorical method is
  EXHAUSTIVE and the descriptor method is not, the excluded class is the descriptor class:
  the enumerated features are the categorical features (and the discrete ones, when the
  discrete method is EXHAUSTIVE) that are no categorical-with-descriptor features, no
  combination has a pair for a categorical-with-descriptor feature, \<open>l\<close> has one
  dictionary per combination of the enumerated features only, and every dictionary of
  \<open>l\<close> leaves the columns of every categorical-with-descriptor feature as the base
  dictionary of fixed features has them. When both are EXHAUSTIVE nothing is excluded: the
  enumerated descriptor features are exactly those of the domain, every combination has
  exactly one pair for each enumerated feature, \<open>l\<close> has one dictionary per combination,
  and the dictionary of a combination pins the columns of every descriptor-encoded
  descriptor feature to the descriptor row of the category chosen for it (not to a one-hot
  vector).
\<close>

theorem descriptor_features_enumerated_once:
  assumes "get_categorical_combinations s = Inr l"
    and "layout_disjoint s" and "distinct (map key_of (inputs (domain s)))"
  shows "(categorical_method s = EXHAUSTIVE \<and> descriptor_method s \<noteq> EXHAUSTIVE \<longrightarrow>
            snd (include_exclude s) = Some CategoricalDescriptorInput_cls \<and>
            (\<forall>f \<in> set (enumerated s). \<not> isinstance f CategoricalDescriptorInput_cls) \<and>
            (\<forall>combo \<in> set (combos_of s). \<forall>f \<in> set (inputs (domain s)).
               isinstance f CategoricalDescriptorInput_cls \<longrightarrow> key_of f \<notin> fst ` set combo) \<and>
            enumerated s =
              filter (\<lambda>f. (isinstance f CategoricalInput_cls \<or>
                            discrete_method s = EXHAUSTIVE \<and> isinstance f DiscreteInput_cls) \<and>
                          \<not> isinstance f CategoricalDescriptorInput_cls) (inputs (domain s)) \<and>
            length l = length (combos_of s) \<and>
            length l = foldr (*) (map (\<lambda>f. length (the (feature_options f))) (enumerated s)) 1 \<and>
            (\<exists>basis. get_fixed_features s = Inr basis \<and>
               (\<forall>n < length l. \<forall>f \<in> set (inputs (domain s)).
                  isinstance f CategoricalDescriptorInput_cls \<longrightarrow>
                    (\<forall>i \<in> set (columns_of s f). (l ! n) i = basis i)))) \<and>
         (categorical_method s = EXHAUSTIVE \<and> descriptor_method s = EXHAUSTIVE \<longrightarrow>
            snd (include_exclude s) = None \<and>
            filter (\<lambda>f. isinstance f CategoricalDescriptorInput_cls) (enumerated s) =
              filter (\<lambda>f. isinstance f CategoricalDescriptorInput_cls) (inputs (domain s)) \<and>
            (\<forall>combo \<in> set (combos_of s).
               map fst combo = map key_of (enumerated s) \<and> distinct (map fst combo)) \<and>
            length l = length (combos_of s) \<and>
            (\<forall>n < length (combos_of s). \<forall>f \<in> set (inputs (domain s)). \<forall>c.
               isinstance f CategoricalDescriptorInput_cls \<and>
               map_of (input_preprocessing_specs s) (key_of f) = Some DESCRIPTOR \<and>
               (key_of f, Str c) \<in> set (combos_of s ! n) \<longrightarrow>
                 (\<exists>idx. index_of (categories f) c = Some idx \<and>
                    (\<forall>j < length (columns_of s f).
                       (l ! n) (columns_of s f ! j) = Some (Num (descriptor_values f ! idx ! j))))))"
proof (intro conjI impI)
  assume a: "categorical_method s = EXHAUSTIVE \<and> descriptor_method s \<noteq> EXHAUSTIVE"
  then have ex: "snd (include_exclude s) = Some CategoricalDescriptorInput_cls"
    by (simp add: include_exclude_categorical_only)
  then show "snd (include_exclude s) = Some CategoricalDescriptorInput_cls" .
  show en: "\<forall>f \<in> set (enumerated s). \<not> isinstance f CategoricalDescriptorInput_cls"
    using enumerated_excluded [OF ex] by blast
  show "\<forall>combo \<in> set (combos_of s). \<forall>f \<in> set (inputs (domain s)).
               isinstance f CategoricalDescriptorInput_cls \<longrightarrow> key_of f \<notin> fst ` set combo"
  proof (intro ballI impI notI)
    fix combo f
    assume co: "combo \<in> set (combos_of s)" and f: "f \<in> set (inputs (domain s))"
      and cd: "isinstance f CategoricalDescriptorInput_cls" and k: "key_of f \<in> fst ` set combo"
    from k obtain v where "(key_of f, v) \<in> set combo" by force
    from combo_pair_from_feature [OF co assms(3) f this] have "f \<in> set (enumerated s)" by simp
    with en cd show False by blast
  qed
  from a show "enumerated s =
              filter (\<lambda>f. (isinstance f CategoricalInput_cls \<or>
                            discrete_method s = EXHAUSTIVE \<and> isinstance f DiscreteInput_cls) \<and>
                          \<not> isinstance f CategoricalDescriptorInput_cls) (inputs (domain s))"
    by (simp add: enumerated_categorical_only)
  from a show len: "length l = length (combos_of s)"
    using combinations_length [OF assms(1)] by simp
  show "length l = foldr (*) (map (\<lambda>f. length (the (feature_options f))) (enumerated s)) 1"
    unfolding len by (simp add: combos_of_eq length_product_lists comp_def)
  from a combinations_leave_unenumerated [OF assms(1) _ assms(2,3)] obtain basis
    where gb: "get_fixed_features s = Inr basis"
      and lv: "\<forall>n < length l. \<forall>f \<in> set (inputs (domain s)). f \<notin> set (enumerated s) \<longrightarrow>
              (\<forall>i \<in> set (columns_of s f). (l ! n) i = basis i)"
    by blast
  from lv en have "\<forall>n < length l. \<forall>f \<in> set (inputs (domain s)).
                  isinstance f CategoricalDescriptorInput_cls \<longrightarrow>
                    (\<forall>i \<in> set (columns_of s f). (l ! n) i = basis i)"
    by blast
  with gb show "\<exists>basis. get_fixed_features s = Inr basis \<and>
               (\<forall>n < length l. \<forall>f \<in> set (inputs (domain s)).
                  isinstance f CategoricalDescriptorInput_cls \<longrightarrow>
                    (\<forall>i \<in> set (columns_of s f). (l ! n) i = basis i))"
    by blast
next
  assume b: "categorical_method s = EXHAUSTIVE \<and> descriptor_method s = EXHAUSTIVE"
  then have ex: "snd (include_exclude s) = None"
    and inc: "CategoricalDescriptorInput_cls \<in> set (fst (include_exclude s))"
    by (simp_all add: include_exclude_both)
  from ex show "snd (include_exclude s) = None" .
  from ex inc show "filter (\<lambda>f. isinstance f CategoricalDescriptorInput_cls) (enumerated s) =
              filter (\<lambda>f. isinstance f CategoricalDescriptorInput_cls) (inputs (domain s))"
    by (rule enumerated_descriptor_features)
  show "\<forall>combo \<in> set (combos_of s).
               map fst combo = map key_of (enumerated s) \<and> distinct (map fst combo)"
    using combo_keys enumerated_distinct [OF assms(3)] by simp
  from assms(1) b obtain basis where gb: "get_fixed_features s = Inr basis"
    and r: "(if length (combos_of s) = 1 then Inr [basis]
             else mapM (apply_combo s basis) (combos_of s)) = Inr l"
    by (cases "get_fixed_features s") (simp_all add: get_categorical_combinations_eq)
  show len: "length l = length (combos_of s)"
  proof (cases "length (combos_of s) = 1")
    case True
    with r show ?thesis by auto
  next
    case False
    with r have "mapM (apply_combo s basis) (combos_of s) = Inr l" by simp
    from mapM_Inr [OF this] show ?thesis by simp
  qed
  show "\<forall>n < length (combos_of s). \<forall>f \<in> set (inputs (domain s)). \<forall>c.
               isinstance f CategoricalDescriptorInput_cls \<and>
               map_of (input_preprocessing_specs s) (key_of f) = Some DESCRIPTOR \<and>
               (key_of f, Str c) \<in> set (combos_of s ! n) \<longrightarrow>
                 (\<exists>idx. index_of (categories f) c = Some idx \<and>
                    (\<forall>j < length (columns_of s f).
                       (l ! n) (columns_of s f ! j) = Some (Num (descriptor_values f ! idx ! j))))"
  proof (intro allI impI ballI)
    fix n f c
    assume n: "n < length (combos_of s)" and f: "f \<in> set (inputs (domain s))"
      and h: "isinstance f CategoricalDescriptorInput_cls \<and>
               map_of (input_preprocessing_specs s) (key_of f) = Some DESCRIPTOR \<and>
               (key_of f, Str c) \<in> set (combos_of s ! n)"
    from n have co: "combos_of s ! n \<in> set (combos_of s)" by simp
    from h have cd: "isinstance f CategoricalDescriptorInput_cls"
      and sp: "map_of (input_preprocessing_specs s) (key_of f) = Some DESCRIPTOR"
      and p: "(key_of f, Str c) \<in> set (combos_of s ! n)" by simp_all
    show "\<exists>idx. index_of (categories f) c = Some idx \<and>
                    (\<forall>j < length (columns_of s f).
                       (l ! n) (columns_of s f ! j) = Some (Num (descriptor_values f ! idx ! j)))"
    proof (cases "length (combos_of s) = 1")
      case True
      with r n have "l ! n = basis" by auto
      with degenerate_descriptor [OF True co gb assms(2,3) f cd sp p] show ?thesis by simp
    next
      case False
      with r have "mapM (apply_combo s basis) (combos_of s) = Inr l" by simp
      from mapM_Inr [OF this] n
      have "apply_combo s basis (combos_of s ! n) = Inr (l ! n)" by simp
      from apply_combo_descriptor [OF this co assms(2,3) f cd sp p] show ?thesis .
    qed
  qed
qed

lemma ex_desc_layout_disjoint: "layout_disjoint (ex_desc cm dm)"
  by (auto simp: layout_disjoint_def ex_desc_def columns_of_def)

lemma ex_desc_distinct_keys: "distinct (map key_of (inputs (domain (ex_desc cm dm))))"
  by (simp add: ex_desc_def)

theorem descriptor_features_enumerated_once_witness:
  "get_categorical_combinations (ex_desc EXHAUSTIVE FREE) =
     Inr [[3 \<mapsto> Num 1, 4 \<mapsto> Num 0], [3 \<mapsto> Num 0, 4 \<mapsto> Num 1]] \<and>
   combos_of (ex_desc EXHAUSTIVE FREE) = [[(''d'', Str ''x'')], [(''d'', Str ''y'')]] \<and>
   snd (include_exclude (ex_desc EXHAUSTIVE FREE)) = Some CategoricalDescriptorInput_cls \<and>
   enumerated (ex_desc EXHAUSTIVE FREE) = [CategoricalInput ''d'' [''x'', ''y''] [True, True]] \<and>
   length [[3 \<mapsto> Num 1, 4 \<mapsto> Num 0], [(3::nat) \<mapsto> Num 0, 4 \<mapsto> Num (1::real)]] = 2 \<and>
   ([[3 \<mapsto> Num 1, 4 \<mapsto> Num 0], [(3::nat) \<mapsto> Num 0, 4 \<mapsto> Num (1::real)]] ! 1) 2 = None \<and>
   combos_of (ex_desc EXHAUSTIVE EXHAUSTIVE) =
     [[(''e'', Str ''p''), (''d'', Str ''x'')], [(''e'', Str ''p''), (''d'', Str ''y'')],
      [(''e'', Str ''q''), (''d'', Str ''x'')], [(''e'', Str ''q''), (''d'', Str ''y'')]] \<and>
   snd (include_exclude (ex_desc EXHAUSTIVE EXHAUSTIVE)) = None \<and>
   (\<exists>l. get_categorical_combinations (ex_desc EXHAUSTIVE EXHAUSTIVE) = Inr l \<and> length l = 4 \<and>
        (l ! 2) 1 = Some (Num 3) \<and> (l ! 2) 2 = Some (Num 7))"
proof -
  let ?s = "ex_desc EXHAUSTIVE EXHAUSTIVE"
  let ?t = "ex_desc EXHAUSTIVE FREE"
  let ?e = "CategoricalDescriptorInput ''e'' [''p'', ''q''] [True, True] [[1, 2], [3, 7]]"
  let ?l = "[[1 \<mapsto> Num 1, 2 \<mapsto> Num 2, 3 \<mapsto> Num 1, 4 \<mapsto> Num 0],
          [1 \<mapsto> Num 1, 2 \<mapsto> Num 2, 3 \<mapsto> Num 0, 4 \<mapsto> Num 1],
          [1 \<mapsto> Num 3, 2 \<mapsto> Num 7, 3 \<mapsto> Num 1, 4 \<mapsto> Num 0],
          [(1::nat) \<mapsto> Num 3, 2 \<mapsto> Num 7, 3 \<mapsto> Num 0, 4 \<mapsto> Num 1]]"
  let ?m = "[[3 \<mapsto> Num 1, 4 \<mapsto> Num 0], [(3::nat) \<mapsto> Num 0, 4 \<mapsto> Num (1::real)]]"
  have mt: "categorical_method ?t = EXHAUSTIVE \<and> descriptor_method ?t \<noteq> EXHAUSTIVE"
    and ms: "categorical_method ?s = EXHAUSTIVE \<and> descriptor_method ?s = EXHAUSTIVE"
    by (simp_all add: ex_desc_def)
  have et: "?e \<in> set (inputs (domain ?t))" by (simp add: ex_desc_def)
  have ct: "columns_of ?t ?e = [1, 2]" by (simp add: ex_desc_def columns_of_def)
  note v = descriptor_features_enumerated_once
         [OF ex_desc_cc_cat ex_desc_layout_disjoint ex_desc_distinct_keys]
  note h = v [THEN conjunct1, THEN mp, OF mt]
  note w1 = h [THEN conjunct1]
  note h4 = h [THEN conjunct2, THEN conjunct2, THEN conjunct2]
  from h4 [THEN conjunct1]
  have w6: "enumerated ?t = [CategoricalInput ''d'' [''x'', ''y''] [True, True]]"
    by (simp add: ex_desc_def)
  from h4 [THEN conjunct2, THEN conjunct1]
  have w7: "length ?m = 2" by (simp add: ex_desc_combos_cat)
  from h4 [THEN conjunct2, THEN conjunct2, THEN conjunct2]
  obtain basis where gb: "get_fixed_features ?t = Inr basis"
    and lv: "\<forall>n < length ?m. \<forall>f \<in> set (inputs (domain ?t)).
               isinstance f CategoricalDescriptorInput_cls \<longrightarrow>
                 (\<forall>i \<in> set (columns_of ?t f). (?m ! n) i = basis i)"
    by (elim exE conjE)
  from gb have be: "basis = Map.empty" by (simp add: ex_desc_fixed)
  from lv have "1 < length ?m \<longrightarrow> (\<forall>f \<in> set (inputs (domain ?t)).
               isinstance f CategoricalDescriptorInput_cls \<longrightarrow>
                 (\<forall>i \<in> set (columns_of ?t f). (?m ! 1) i = basis i))"
    by (rule spec)
  then have "\<forall>f \<in> set (inputs (domain ?t)).
               isinstance f CategoricalDescriptorInput_cls \<longrightarrow>
                 (\<forall>i \<in> set (columns_of ?t f). (?m ! 1) i = basis i)"
    by simp
  from bspec [OF this et] have "\<forall>i \<in> set (columns_of ?t ?e). (?m ! 1) i = basis i" by simp
  then have "(?m ! 1) 2 = basis 2" unfolding ct by simp
  with be have w8: "(?m ! 1) 2 = None" by simp
  note u = descriptor_features_enumerated_once
         [OF ex_desc_cc_both ex_desc_layout_disjoint ex_desc_distinct_keys]
  from u ms have w2: "snd (include_exclude ?s) = None" and len: "length ?l = length (combos_of ?s)"
    by blast+
  from u ms have pins: "\<forall>n < length (combos_of ?s). \<forall>f \<in> set (inputs (domain ?s)). \<forall>c.
               isinstance f CategoricalDescriptorInput_cls \<and>
               map_of (input_preprocessing_specs ?s) (key_of f) = Some DESCRIPTOR \<and>
               (key_of f, Str c) \<in> set (combos_of ?s ! n) \<longrightarrow>
                 (\<exists>idx. index_of (categories f) c = Some idx \<and>
                    (\<forall>j < length (columns_of ?s f).
                       (?l ! n) (columns_of ?s f ! j) = Some (Num (descriptor_values f ! idx ! j))))"
    by blast
  have n: "2 < length (combos_of ?s)" by (simp add: ex_desc_combos_both)
  have em: "?e \<in> set (inputs (domain ?s))" by (simp add: ex_desc_def)
  have pre: "isinstance ?e CategoricalDescriptorInput_cls \<and>
      map_of (input_preprocessing_specs ?s) (key_of ?e) = Some DESCRIPTOR \<and>
      (key_of ?e, Str ''q'') \<in> set (combos_of ?s ! 2)"
    by (simp add: ex_desc_combos_both) (simp add: ex_desc_def)
  from pins n em pre obtain idx where idx: "index_of (categories ?e) ''q'' = Some idx"
    and pj: "\<forall>j < length (columns_of ?s ?e).
        (?l ! 2) (columns_of ?s ?e ! j) = Some (Num (descriptor_values ?e ! idx ! j))"
    by blast
  have ce: "columns_of ?s ?e = [1, 2]" by (simp add: ex_desc_def columns_of_def)
  from idx have i1: "idx = 1" by simp
  have z: "0 < length (columns_of ?s ?e)" and o: "1 < length (columns_of ?s ?e)"
    by (simp_all add: ce)
  from pj z have a0: "(?l ! 2) (columns_of ?s ?e ! 0) = Some (Num (descriptor_values ?e ! idx ! 0))"
    by blast
  from pj o have a1: "(?l ! 2) (columns_of ?s ?e ! 1) = Some (Num (descriptor_values ?e ! idx ! 1))"
    by blast
  from a0 have w3: "(?l ! 2) 1 = Some (Num 3)" by (simp add: ce i1)
  from a1 have w4: "(?l ! 2) 2 = Some (Num 7)" by (simp add: ce i1)
  from len have w5: "length ?l = 4" by (simp add: ex_desc_combos_both)
  from ex_desc_cc_both w5 w3 w4
  have "\<exists>l. get_categorical_combinations ?s = Inr l \<and> length l = 4 \<and>
        (l ! 2) 1 = Some (Num 3) \<and> (l ! 2) 2 = Some (Num 7)"
    by blast
  with ex_desc_cc_cat ex_desc_combos_cat w1 w6 w7 w8 ex_desc_combos_both w2 show ?thesis by blast
qed

end
